theory Spec2Isabelle
  imports Main
begin

section \<open>Documents and the relation graph (relation-graph.ts)\<close>

text \<open>
  A document is Obsidian's \<open>TFile\<close>; the code only reads its \<open>path\<close> (the identity key)
  and its \<open>basename\<close> (the display name).
\<close>

record TFile =
  path :: string
  basename :: string

record NodeInfo =
  file' :: TFile
  parents :: "TFile list"
  children :: "TFile list"

text \<open>
  \<open>private graph = new Map<string, NodeInfo>()\<close>. A JavaScript \<open>Map\<close> iterates in
  insertion order and \<open>set\<close> on an existing key keeps the key's position, so the map is an
  association list with \<open>map_of\<close> as \<open>get\<close> and \<open>map_set\<close> as \<open>set\<close>.
\<close>

type_synonym graph = "(string \<times> NodeInfo) list"

fun map_set :: "'k \<Rightarrow> 'v \<Rightarrow> ('k \<times> 'v) list \<Rightarrow> ('k \<times> 'v) list" where
  "map_set k v [] = [(k, v)]"
| "map_set k v ((k', v') # rest) =
     (if k' = k then (k, v) # rest else (k', v') # map_set k v rest)"

subsection \<open>The collaborators: vault and metadata cache\<close>

text \<open>
  The value of a frontmatter field as the code distinguishes it: absent (\<open>None\<close> at the
  lookup), a scalar, or an array. The empty string is falsy in JavaScript.
\<close>

datatype FieldValue = Scalar string | Many "string list"

record CachedMetadata =
  frontmatter :: "(string \<rightharpoonup> FieldValue) option"
  meta_path :: "string option"

record App =
  getMarkdownFiles :: "TFile list"
  getFileCache :: "TFile \<Rightarrow> CachedMetadata option"
  getFirstLinkpathDest :: "string \<Rightarrow> string option \<Rightarrow> TFile option"

definition resolveLink :: "App \<Rightarrow> string \<Rightarrow> CachedMetadata option \<Rightarrow> TFile option" where
  "resolveLink app ref meta =
     getFirstLinkpathDest app ref (case meta of None \<Rightarrow> None | Some m \<Rightarrow> meta_path m)"

definition extractParentLinks :: "App \<Rightarrow> string \<Rightarrow> CachedMetadata option \<Rightarrow> TFile list" where
  "extractParentLinks app parentField meta =
     (let field = (case meta of None \<Rightarrow> None
                   | Some m \<Rightarrow> (case frontmatter m of None \<Rightarrow> None | Some fm \<Rightarrow> fm parentField))
      in case field of
           None \<Rightarrow> []
         | Some (Scalar s) \<Rightarrow>
             (if s = [] then [] else List.map_filter (\<lambda>ref. resolveLink app ref meta) [s])
         | Some (Many arr) \<Rightarrow> List.map_filter (\<lambda>ref. resolveLink app ref meta) arr)"

subsection \<open>build\<close>

text \<open>First pass of \<open>build\<close>: \<open>files.forEach\<close> sets one node per file, with no children.\<close>

definition build_nodes :: "App \<Rightarrow> string \<Rightarrow> graph" where
  "build_nodes app parentField =
     fold (\<lambda>f g. map_set (path f)
                   \<lparr>file' = f,
                    parents = extractParentLinks app parentField (getFileCache app f),
                    children = []\<rparr> g)
          (getMarkdownFiles app) []"

text \<open>\<open>this.graph.get(parent.path)?.children.push(node.file)\<close>: nothing happens for a
  parent that has no node.\<close>

definition push_child :: "string \<Rightarrow> TFile \<Rightarrow> graph \<Rightarrow> graph" where
  "push_child k c g =
     (case map_of g k of
        None \<Rightarrow> g
      | Some n \<Rightarrow> map_set k (n\<lparr>children := children n @ [c]\<rparr>) g)"

text \<open>Second pass: for every node, in map order, for every parent, in list order. The pass
  changes only \<open>children\<close> lists, so the nodes' \<open>file\<close> and \<open>parents\<close> read during the
  iteration are those of the first pass.\<close>

definition link_children :: "graph \<Rightarrow> graph" where
  "link_children g =
     fold (\<lambda>node g'. fold (\<lambda>parent. push_child (path parent) (file' node)) (parents node) g')
          (map snd g) g"

definition build :: "App \<Rightarrow> string \<Rightarrow> graph" where
  "build app parentField = link_children (build_nodes app parentField)"

subsection \<open>Queries\<close>

definition getParents :: "graph \<Rightarrow> TFile \<Rightarrow> TFile list" where
  "getParents g f = (case map_of g (path f) of None \<Rightarrow> [] | Some n \<Rightarrow> parents n)"

definition getChildren :: "graph \<Rightarrow> TFile \<Rightarrow> TFile list" where
  "getChildren g f = (case map_of g (path f) of None \<Rightarrow> [] | Some n \<Rightarrow> children n)"

definition getAllFiles :: "graph \<Rightarrow> TFile list" where
  "getAllFiles g = map (\<lambda>kv. file' (snd kv)) g"


section \<open>Cycle detection (cycle-detector.ts)\<close>

text \<open>\<open>startFile\<close> is \<open>path[0]\<close>, which JavaScript reads as \<open>undefined\<close> on an empty
  array: \<open>None\<close> here. \<open>length_ci\<close> is the field \<open>length\<close>.\<close>

record CycleInfo =
  cyclePath :: "TFile list"
  startFile :: "TFile option"
  description :: string
  length_ci :: int

datatype NodeState = WHITE | GRAY | BLACK

type_synonym states = "string \<rightharpoonup> NodeState"

definition state_of :: "states \<Rightarrow> TFile \<Rightarrow> NodeState" where
  "state_of states f = (case states (path f) of None \<Rightarrow> WHITE | Some s \<Rightarrow> s)"

text \<open>\<open>Array.prototype.findIndex\<close> (\<open>-1\<close> when no element matches), \<open>slice(start)\<close>
  (a negative start counts from the end) and \<open>join\<close>.\<close>

fun findIndex :: "('a \<Rightarrow> bool) \<Rightarrow> 'a list \<Rightarrow> int" where
  "findIndex P [] = - 1"
| "findIndex P (x # xs) =
     (if P x then 0 else (let i = findIndex P xs in if i < 0 then - 1 else i + 1))"

definition slice :: "'a list \<Rightarrow> int \<Rightarrow> 'a list" where
  "slice xs start =
     (let n = int (length xs);
          k = (if start < 0 then max (n + start) 0 else min start n)
      in drop (nat k) xs)"

fun join :: "string \<Rightarrow> string list \<Rightarrow> string" where
  "join sep [] = []"
| "join sep [x] = x"
| "join sep (x # y # ys) = x @ sep @ join sep (y # ys)"

text \<open>The separator \<open>' \<rightarrow> '\<close> of the description, the arrow U+2192 in UTF-8.\<close>

definition arrow :: string where
  "arrow = [CHR '' '', CHR 0xE2, CHR 0x86, CHR 0x92, CHR '' '']"

definition buildCycleInfo :: "TFile \<Rightarrow> TFile list \<Rightarrow> CycleInfo" where
  "buildCycleInfo cycleStart pth =
     (let cycleStartIndex = findIndex (\<lambda>f. path f = path cycleStart) pth;
          cyclePath = slice pth cycleStartIndex @ [cycleStart];
          names = join arrow (map basename cyclePath)
      in \<lparr>cyclePath = cyclePath,
          startFile = (case pth of [] \<Rightarrow> None | f # _ \<Rightarrow> Some f),
          description = ''Cycle detected: '' @ names,
          length_ci = int (length cyclePath) - 1\<rparr>)"

text \<open>
  The recursive \<open>dfs\<close> of the detector. \<open>states\<close> and \<open>path\<close> are one mutable map and one
  mutable array shared by all calls, so both are threaded through and returned.
  \<open>dfs_parents\<close> is the \<open>for (const parent of parents)\<close> loop on the rest of the parents.
  On a cycle the code returns at once, without the \<open>pop\<close>.
\<close>

function dfs :: "graph \<Rightarrow> TFile \<Rightarrow> states \<Rightarrow> TFile list \<Rightarrow> CycleInfo option \<times> states \<times> TFile list"
  and dfs_parents :: "graph \<Rightarrow> TFile list \<Rightarrow> states \<Rightarrow> TFile list \<Rightarrow> CycleInfo option \<times> states \<times> TFile list"
where
  "dfs g current states pth =
     (case dfs_parents g (getParents g current) (states(path current \<mapsto> GRAY)) (pth @ [current]) of
        (Some cycle, states', pth') \<Rightarrow> (Some cycle, states', pth')
      | (None, states', pth') \<Rightarrow> (None, states'(path current \<mapsto> BLACK), butlast pth'))"
| "dfs_parents g [] states pth = (None, states, pth)"
| "dfs_parents g (parent # rest) states pth =
     (case state_of states parent of
        GRAY \<Rightarrow> (Some (buildCycleInfo parent pth), states, pth)
      | WHITE \<Rightarrow>
          (case dfs g parent states pth of
             (Some cycle, states', pth') \<Rightarrow> (Some cycle, states', pth')
           | (None, states', pth') \<Rightarrow> dfs_parents g rest states' pth')
      | BLACK \<Rightarrow> dfs_parents g rest states pth)"
  by pat_completeness auto


subsection \<open>Termination of the detector\<close>

text \<open>A recursive call is made on an unvisited parent only, and it leaves no more documents
  unvisited than it found: the unvisited documents among those the graph mentions decrease.\<close>

definition is_white :: "states \<Rightarrow> string \<Rightarrow> bool" where
  "is_white st u = (case st u of None \<Rightarrow> True | Some s \<Rightarrow> s = WHITE)"

text \<open>Every path the graph mentions: its keys and the parents and children of its nodes.\<close>

definition all_paths :: "graph \<Rightarrow> string list" where
  "all_paths g =
     map fst g @ concat (map (\<lambda>kv. map path (parents (snd kv) @ children (snd kv))) g)"

lemma state_of_white: "state_of st f = WHITE \<longleftrightarrow> is_white st (path f)"
  by (auto simp: state_of_def is_white_def split: option.splits)

lemma getParents_all_paths: "path ` set (getParents g c) \<subseteq> set (all_paths g)"
proof (cases "map_of g (path c)")
  case None
  then show ?thesis by (simp add: getParents_def)
next
  case (Some n)
  then have "(path c, n) \<in> set g" by (rule map_of_SomeD)
  then have "path ` set (parents n) \<subseteq> set (all_paths g)"
    by (force simp: all_paths_def)
  with Some show ?thesis by (simp add: getParents_def)
qed

lemma is_white_upd: "is_white (st(k \<mapsto> c)) u \<longleftrightarrow> (if u = k then c = WHITE else is_white st u)"
  by (simp add: is_white_def)

lemma dfs_white_mono_dom:
  shows "dfs_dfs_parents_dom (Inl (g, c, st, p)) \<Longrightarrow>
           is_white (fst (snd (dfs g c st p))) u \<Longrightarrow> is_white st u"
    and "dfs_dfs_parents_dom (Inr (g, ps, st, p)) \<Longrightarrow>
           is_white (fst (snd (dfs_parents g ps st p))) u \<Longrightarrow> is_white st u"
proof (induct rule: dfs_dfs_parents.pinduct)
  case (1 g current states pth)
  obtain r s' p' where d: "dfs_parents g (getParents g current) (states(path current \<mapsto> GRAY)) (pth @ [current]) = (r, s', p')"
    by (cases "dfs_parents g (getParents g current) (states(path current \<mapsto> GRAY)) (pth @ [current])") auto
  from 1(3) d 1(1) have "is_white s' u"
    by (cases r) (auto simp: dfs.psimps is_white_def split: if_splits)
  then have "is_white (fst (snd (dfs_parents g (getParents g current) (states(path current \<mapsto> GRAY)) (pth @ [current])))) u"
    unfolding d by simp
  then have "is_white (states(path current \<mapsto> GRAY)) u" by (rule 1(2))
  then show ?case by (simp add: is_white_upd split: if_splits)
next
  case (2 g states pth)
  then show ?case by (simp add: dfs_parents.psimps)
next
  case (3 g parent rest states pth)
  show ?case
  proof (cases "state_of states parent")
    case WHITE
    obtain r s' p' where d: "dfs g parent states pth = (r, s', p')"
      by (cases "dfs g parent states pth") auto
    show ?thesis
    proof (cases r)
      case None
      with 3 WHITE d show ?thesis
        by (simp add: dfs_parents.psimps)
    next
      case (Some a)
      with 3 WHITE d show ?thesis
        by (simp add: dfs_parents.psimps)
    qed
  next
    case GRAY
    with 3 show ?thesis by (simp add: dfs_parents.psimps)
  next
    case BLACK
    with 3 show ?thesis by (simp add: dfs_parents.psimps)
  qed
qed

definition white_set :: "graph \<Rightarrow> TFile list \<Rightarrow> states \<Rightarrow> string set" where
  "white_set g ps st = {u \<in> set (all_paths g) \<union> path ` set ps. is_white st u}"

lemma finite_white_set: "finite (white_set g ps st)"
  by (simp add: white_set_def)

definition dfs_measure ::
  "graph \<times> TFile \<times> states \<times> TFile list + graph \<times> TFile list \<times> states \<times> TFile list \<Rightarrow> nat \<times> nat" where
  "dfs_measure x =
     (case x of
        Inl (g, c, st, p) \<Rightarrow> (card (white_set g [] st - {path c}) + 1, 0)
      | Inr (g, ps, st, p) \<Rightarrow> (card (white_set g ps st), length ps + 1))"

lemma dfs_total: "All dfs_dfs_parents_dom"
proof (relation "inv_image (less_than <*lex*> less_than) dfs_measure", goal_cases)
  case 1
  show ?case by (intro wf_inv_image wf_lex_prod wf_less_than)
next
  case (2 g current states pth)
  have "white_set g (getParents g current) (states(path current \<mapsto> GRAY))
        = white_set g [] states - {path current}"
    using getParents_all_paths[of g current]
    by (auto simp: white_set_def is_white_def)
  then show ?case by (simp add: dfs_measure_def)
next
  case (3 g parent rest states pth)
  then have w: "path parent \<in> white_set g (parent # rest) states"
    by (simp add: white_set_def state_of_white)
  have "insert (path parent) (white_set g [] states - {path parent}) \<subseteq> white_set g (parent # rest) states"
    using w by (auto simp: white_set_def)
  then have "card (insert (path parent) (white_set g [] states - {path parent})) \<le> card (white_set g (parent # rest) states)"
    by (rule card_mono[OF finite_white_set])
  moreover have "card (insert (path parent) (white_set g [] states - {path parent}))
        = Suc (card (white_set g [] states - {path parent}))"
    by (rule card_insert_disjoint) (simp_all add: finite_white_set)
  ultimately have "card (white_set g [] states - {path parent}) + 1 \<le> card (white_set g (parent # rest) states)"
    by simp
  then show ?case by (auto simp: dfs_measure_def)
next
  case (4 g parent rest states pth x y xa ya)
  then have "dfs g parent states pth = (None, xa, ya)" by (metis)
  then have "fst (snd (dfs g parent states pth)) = xa" by simp
  with 4(5) have "\<And>u. is_white xa u \<Longrightarrow> is_white states u"
    using dfs_white_mono_dom(1)[of g parent states pth] by simp
  then have "white_set g rest xa \<subseteq> white_set g (parent # rest) states"
    by (auto simp: white_set_def)
  then have "card (white_set g rest xa) \<le> card (white_set g (parent # rest) states)"
    by (rule card_mono[OF finite_white_set])
  then show ?case by (auto simp: dfs_measure_def)
next
  case (5 g parent rest states pth)
  have "white_set g rest states \<subseteq> white_set g (parent # rest) states"
    by (auto simp: white_set_def)
  then have "card (white_set g rest states) \<le> card (white_set g (parent # rest) states)"
    by (rule card_mono[OF finite_white_set])
  then show ?case by (auto simp: dfs_measure_def)
qed

termination dfs
  by (rule dfs_total)

text \<open>\<open>dfs.simps\<close> rewrites every call of \<open>dfs\<close>: it is used where it is named only.\<close>

declare dfs.simps [simp del]

definition detectCycle :: "graph \<Rightarrow> TFile \<Rightarrow> CycleInfo option" where
  "detectCycle g start = fst (dfs g start Map.empty [])"

fun hasCycles_loop :: "graph \<Rightarrow> TFile list \<Rightarrow> states \<Rightarrow> bool" where
  "hasCycles_loop g [] states = False"
| "hasCycles_loop g (f # rest) states =
     (if state_of states f = WHITE then
        (case dfs g f states [] of
           (Some cycle, states', pth') \<Rightarrow> True
         | (None, states', pth') \<Rightarrow> hasCycles_loop g rest states')
      else hasCycles_loop g rest states)"

definition hasCycles :: "graph \<Rightarrow> bool" where
  "hasCycles g = hasCycles_loop g (getAllFiles g) Map.empty"

definition getCycleInfo :: "graph \<Rightarrow> TFile \<Rightarrow> CycleInfo option" where
  "getCycleInfo g f = detectCycle g f"

section \<open>Generational traversal (relationship-engine.ts)\<close>

text \<open>A JavaScript \<open>number\<close> used as a bound: an integer or \<open>Infinity\<close>.\<close>

datatype number = Finite int | Infinity

fun num_less :: "int \<Rightarrow> number \<Rightarrow> bool" where
  "num_less i (Finite d) = (i < d)"
| "num_less i Infinity = True"

fun num_greater :: "int \<Rightarrow> number \<Rightarrow> bool" where
  "num_greater i (Finite d) = (i > d)"
| "num_greater i Infinity = False"

text \<open>The two inner loops of \<open>getAncestors\<close>: over the parents of one document, and over
  the documents of the current generation. The state is \<open>nextGeneration\<close>,
  \<open>seenInGeneration\<close> and \<open>visited\<close>.\<close>

fun scan_parents ::
  "TFile list \<Rightarrow> TFile list \<times> string set \<times> string set \<Rightarrow> TFile list \<times> string set \<times> string set" where
  "scan_parents [] s = s"
| "scan_parents (parent # rest) (nextGeneration, seenInGeneration, visited) =
     (if path parent \<in> visited then scan_parents rest (nextGeneration, seenInGeneration, visited)
      else if path parent \<in> seenInGeneration
        then scan_parents rest (nextGeneration, seenInGeneration, visited)
      else scan_parents rest
             (nextGeneration @ [parent], insert (path parent) seenInGeneration,
              insert (path parent) visited))"

definition scan_generation ::
  "graph \<Rightarrow> TFile list \<Rightarrow> string set \<Rightarrow> TFile list \<times> string set \<times> string set" where
  "scan_generation g currentGeneration visited =
     fold (\<lambda>current. scan_parents (getParents g current)) currentGeneration ([], {}, visited)"

lemma scan_parents_props:
  "scan_parents ps (ng, seen, v) = (ng', seen', v') \<Longrightarrow>
     \<exists>new. ng' = ng @ new \<and> v' = v \<union> path ` set new \<and> seen' = seen \<union> path ` set new
       \<and> set new \<subseteq> set ps \<and> path ` set new \<inter> (v \<union> seen) = {} \<and> distinct (map path new)"
proof (induction ps arbitrary: ng seen v)
  case Nil
  then show ?case by auto
next
  case (Cons p ps)
  show ?case
  proof (cases "path p \<in> v \<or> path p \<in> seen")
    case True
    with Cons.prems have "scan_parents ps (ng, seen, v) = (ng', seen', v')"
      by (auto split: if_splits)
    from Cons.IH[OF this] show ?thesis by auto
  next
    case False
    with Cons.prems have "scan_parents ps (ng @ [p], insert (path p) seen, insert (path p) v) = (ng', seen', v')" by auto
    from Cons.IH[OF this] obtain new where
      n: "ng' = (ng @ [p]) @ new" "v' = insert (path p) v \<union> path ` set new"
         "seen' = insert (path p) seen \<union> path ` set new" "set new \<subseteq> set ps"
         "path ` set new \<inter> (insert (path p) v \<union> insert (path p) seen) = {}" "distinct (map path new)"
      by blast
    show ?thesis
    proof (intro exI[of _ "p # new"] conjI)
      show "ng' = ng @ p # new" using n by simp
      show "v' = v \<union> path ` set (p # new)" using n by auto
      show "seen' = seen \<union> path ` set (p # new)" using n by auto
      show "set (p # new) \<subseteq> set (p # ps)" using n by auto
      show "path ` set (p # new) \<inter> (v \<union> seen) = {}" using n False by auto
      show "distinct (map path (p # new))" using n by auto
    qed
  qed
qed

lemma scan_generation_props:
  "scan_generation g cur v = (ng', seen', v') \<Longrightarrow>
     v' = v \<union> path ` set ng' \<and> seen' = path ` set ng'
     \<and> set ng' \<subseteq> (\<Union>c \<in> set cur. set (getParents g c)) \<and> path ` set ng' \<inter> v = {} \<and> distinct (map path ng')"
proof -
  have gen: "\<And>ng seen v. fold (\<lambda>current. scan_parents (getParents g current)) cur (ng, seen, v) = (ng', seen', v')
      \<Longrightarrow> path ` set ng \<subseteq> seen \<Longrightarrow> distinct (map path ng) \<Longrightarrow>
       \<exists>new. ng' = ng @ new \<and> v' = v \<union> path ` set new \<and> seen' = seen \<union> path ` set new
       \<and> set new \<subseteq> (\<Union>c \<in> set cur. set (getParents g c)) \<and> path ` set new \<inter> (v \<union> seen) = {} \<and> distinct (map path new)"
  proof (induction cur)
    case Nil
    then show ?case by auto
  next
    case (Cons c cur)
    obtain ng1 seen1 v1 where s1: "scan_parents (getParents g c) (ng, seen, v) = (ng1, seen1, v1)"
      by (cases "scan_parents (getParents g c) (ng, seen, v)") auto
    from scan_parents_props[OF s1] obtain new1 where
      n1: "ng1 = ng @ new1" "v1 = v \<union> path ` set new1" "seen1 = seen \<union> path ` set new1"
          "set new1 \<subseteq> set (getParents g c)" "path ` set new1 \<inter> (v \<union> seen) = {}" "distinct (map path new1)"
      by blast
    from Cons.prems(1) s1 have f: "fold (\<lambda>current. scan_parents (getParents g current)) cur (ng1, seen1, v1) = (ng', seen', v')"
      by simp
    have "path ` set ng1 \<subseteq> seen1" using n1 Cons.prems(2) by auto
    moreover have "distinct (map path ng1)" using n1 Cons.prems(2,3) by auto
    ultimately obtain new2 where
      n2: "ng' = ng1 @ new2" "v' = v1 \<union> path ` set new2" "seen' = seen1 \<union> path ` set new2"
          "set new2 \<subseteq> (\<Union>c \<in> set cur. set (getParents g c))" "path ` set new2 \<inter> (v1 \<union> seen1) = {}" "distinct (map path new2)"
      using Cons.IH[OF f] by blast
    show ?case
    proof (intro exI[of _ "new1 @ new2"] conjI)
      show "ng' = ng @ new1 @ new2" using n1 n2 by simp
      show "v' = v \<union> path ` set (new1 @ new2)" using n1 n2 by auto
      show "seen' = seen \<union> path ` set (new1 @ new2)" using n1 n2 by auto
      show "set (new1 @ new2) \<subseteq> (\<Union>c \<in> set (c # cur). set (getParents g c))" using n1 n2 by auto
      show "path ` set (new1 @ new2) \<inter> (v \<union> seen) = {}" using n1 n2 by auto
      show "distinct (map path (new1 @ new2))" using n1 n2 by auto
    qed
  qed
  assume "scan_generation g cur v = (ng', seen', v')"
  then have "fold (\<lambda>current. scan_parents (getParents g current)) cur ([], {}, v) = (ng', seen', v')"
    by (simp add: scan_generation_def)
  from gen[OF this] show ?thesis by auto
qed

text \<open>The \<open>for (let level = 0; level < depth; level++)\<close> loop, with its \<open>break\<close>.\<close>

function ancestors_loop ::
  "graph \<Rightarrow> int \<Rightarrow> number \<Rightarrow> TFile list \<Rightarrow> string set \<Rightarrow> TFile list list \<Rightarrow> TFile list list" where
  "ancestors_loop g level depth currentGeneration visited result =
     (if num_less level depth then
        (case scan_generation g currentGeneration visited of
           (nextGeneration, seenInGeneration, visited') \<Rightarrow>
             if nextGeneration = [] then result
             else ancestors_loop g (level + 1) depth nextGeneration visited'
                    (result @ [nextGeneration]))
      else result)"
  by pat_completeness auto

text \<open>A generation that is not empty adds a document the graph mentions to \<open>visited\<close>, so
  the loop ends whatever the depth, \<open>Infinity\<close> included.\<close>

lemma ancestors_loop_decreases:
  assumes "scan_generation g cur v = (ng, seen, v')" and "ng \<noteq> []"
  shows "card (set (all_paths g) - v') < card (set (all_paths g) - v)"
proof -
  from scan_generation_props[OF assms(1)] have
    p: "v' = v \<union> path ` set ng" "set ng \<subseteq> (\<Union>c \<in> set cur. set (getParents g c))" "path ` set ng \<inter> v = {}"
    by auto
  from assms(2) obtain x where x: "x \<in> set ng" by (cases ng) auto
  with p(2) obtain c where "x \<in> set (getParents g c)" by auto
  with getParents_all_paths[of g c] have "path x \<in> set (all_paths g)" by auto
  moreover have "path x \<notin> v" using x p(3) by auto
  moreover have "path x \<in> v'" using x p(1) by auto
  ultimately have "set (all_paths g) - v' \<subset> set (all_paths g) - v" using p(1) by auto
  then show ?thesis by (rule psubset_card_mono[rotated]) simp
qed

lemma ancestors_loop_total: "All ancestors_loop_dom"
  by (relation "measure (\<lambda>(g, level, depth, cur, visited, result). card (set (all_paths g) - visited))")
     (auto intro: ancestors_loop_decreases[OF sym])

termination ancestors_loop
  by (rule ancestors_loop_total)

text \<open>
  Modelled from the spec: \<open>RelationGraph.getMaxDepth()\<close>, the method that \<open>getAncestors\<close>
  calls for its default depth. The method is not in relation-graph.ts, whose constructor takes
  \<open>app\<close> and \<open>parentField\<close> only. The spec gives the default as a caller-supplied or globally
  configured default, the docstring of \<open>getAncestors\<close> as \<open>default: from settings\<close>, and the
  tests construct the graph with it (\<open>new RelationGraph(mockApp, 'parent', maxDepth)\<close>) and
  expect \<open>getAncestors(file)\<close> to stop at that depth. The method returns the depth that the
  graph was configured with, \<open>graphMaxDepth\<close>, which the queries of the engine take as a
  parameter beside the node map.
\<close>

definition getMaxDepth :: "number \<Rightarrow> number" where
  "getMaxDepth graphMaxDepth = graphMaxDepth"

text \<open>\<open>maxDepth ?? this.graph.getMaxDepth()\<close>: an absent \<open>maxDepth\<close> is \<open>None\<close>.\<close>

definition getAncestors :: "number \<Rightarrow> graph \<Rightarrow> TFile \<Rightarrow> number option \<Rightarrow> TFile list list" where
  "getAncestors graphMaxDepth g f maxDepth =
     (let depth = (case maxDepth of Some d \<Rightarrow> d | None \<Rightarrow> getMaxDepth graphMaxDepth)
      in ancestors_loop g 0 depth [f] {path f} [])"

section \<open>Path finding (utils/path-finder.ts)\<close>

datatype Direction = up | down | mixed

text \<open>\<open>length_np\<close>, \<open>path_np\<close> and \<open>end_np\<close> are the fields \<open>length\<close>, \<open>path\<close> and \<open>end\<close>.\<close>

record NotePath =
  start :: TFile
  end_np :: TFile
  path_np :: "TFile list"
  length_np :: int
  direction :: Direction

text \<open>One \<open>for\<close> loop of \<open>findShortestPath\<close> over the neighbours of the dequeued node: it
  returns the full path at the first neighbour that is the target, and otherwise goes on
  with the queue and the visited set it has extended.\<close>

datatype ('r, 's) scan = Return 'r | Next 's

fun scan_neighbors ::
  "TFile \<Rightarrow> TFile list \<Rightarrow> TFile list \<Rightarrow> (TFile \<times> TFile list) list \<times> string set
     \<Rightarrow> (TFile list, (TFile \<times> TFile list) list \<times> string set) scan" where
  "scan_neighbors e pth [] (queue, visited) = Next (queue, visited)"
| "scan_neighbors e pth (n # rest) (queue, visited) =
     (if path n = path e then Return (pth @ [n])
      else if path n \<notin> visited
        then scan_neighbors e pth rest (queue @ [(n, pth @ [n])], insert (path n) visited)
      else scan_neighbors e pth rest (queue, visited))"

text \<open>The \<open>while (queue.length > 0)\<close> loop: \<open>queue.shift()\<close>, the parents, the children.\<close>

function bfs ::
  "graph \<Rightarrow> TFile \<Rightarrow> TFile \<Rightarrow> (TFile \<times> TFile list) list \<Rightarrow> string set \<Rightarrow> NotePath option" where
  "bfs g s e [] visited = None"
| "bfs g s e ((node, pth) # queue) visited =
     (case scan_neighbors e pth (getParents g node) (queue, visited) of
        Return fullPath \<Rightarrow>
          Some \<lparr>start = s, end_np = e, path_np = fullPath,
                length_np = int (length fullPath) - 1, direction = up\<rparr>
      | Next (queue1, visited1) \<Rightarrow>
          (case scan_neighbors e pth (getChildren g node) (queue1, visited1) of
             Return fullPath \<Rightarrow>
               Some \<lparr>start = s, end_np = e, path_np = fullPath,
                     length_np = int (length fullPath) - 1, direction = down\<rparr>
           | Next (queue2, visited2) \<Rightarrow> bfs g s e queue2 visited2))"
  by pat_completeness auto

lemma getChildren_all_paths: "path ` set (getChildren g c) \<subseteq> set (all_paths g)"
proof (cases "map_of g (path c)")
  case None
  then show ?thesis by (simp add: getChildren_def)
next
  case (Some n)
  then have "(path c, n) \<in> set g" by (rule map_of_SomeD)
  then have "path ` set (children n) \<subseteq> set (all_paths g)"
    by (force simp: all_paths_def)
  with Some show ?thesis by (simp add: getChildren_def)
qed

lemma scan_neighbors_measure:
  "scan_neighbors e pth ns (q, v) = Next (q', v') \<Longrightarrow> path ` set ns \<subseteq> U \<Longrightarrow> finite U \<Longrightarrow>
     length q' + 2 * card (U - v') \<le> length q + 2 * card (U - v)"
proof (induction ns arbitrary: q v)
  case Nil
  then show ?case by simp
next
  case (Cons n ns)
  from Cons.prems(1) have ne: "path n \<noteq> path e" by (auto split: if_splits)
  show ?case
  proof (cases "path n \<in> v")
    case True
    with Cons.prems ne have "scan_neighbors e pth ns (q, v) = Next (q', v')" by simp
    from Cons.IH[OF this] Cons.prems show ?thesis by simp
  next
    case False
    with Cons.prems ne have "scan_neighbors e pth ns (q @ [(n, pth @ [n])], insert (path n) v) = Next (q', v')"
      by simp
    from Cons.IH[OF this] Cons.prems
    have 1: "length q' + 2 * card (U - v') \<le> length q + 1 + 2 * card (U - insert (path n) v)" by simp
    have "path n \<in> U - v" using False Cons.prems(2) by auto
    then have "card (U - insert (path n) v) < card (U - v)"
      using Cons.prems(3) by (intro psubset_card_mono) auto
    with 1 show ?thesis by simp
  qed
qed

lemma bfs_total: "All bfs_dom"
proof (relation "measure (\<lambda>(g, s, e, q, v). length q + 2 * card (set (all_paths g) - v))", goal_cases)
  case 1
  show ?case by simp
next
  case (2 g s e node pth queue visited x2 x y x2a xa ya)
  then have a: "scan_neighbors e pth (getParents g node) (queue, visited) = Next (x, y)"
    and b: "scan_neighbors e pth (getChildren g node) (x, y) = Next (xa, ya)" by simp_all
  have "length x + 2 * card (set (all_paths g) - y) \<le> length queue + 2 * card (set (all_paths g) - visited)"
    by (rule scan_neighbors_measure[OF a getParents_all_paths]) simp
  moreover have "length xa + 2 * card (set (all_paths g) - ya) \<le> length x + 2 * card (set (all_paths g) - y)"
    by (rule scan_neighbors_measure[OF b getChildren_all_paths]) simp
  ultimately show ?case by simp
qed

termination bfs
  by (rule bfs_total)

declare bfs.simps [simp del]

definition findShortestPath :: "TFile \<Rightarrow> TFile \<Rightarrow> graph \<Rightarrow> NotePath option" where
  "findShortestPath s e g =
     (if path s = path e
      then Some \<lparr>start = s, end_np = e, path_np = [s], length_np = 0, direction = mixed\<rparr>
      else bfs g s e [(s, [s])] {path s})"

fun scan_direction :: "graph \<Rightarrow> TFile list \<Rightarrow> bool \<times> bool \<Rightarrow> bool \<times> bool" where
  "scan_direction g (current # next # rest) (hasUp, hasDown) =
     scan_direction g (next # rest)
       (hasUp \<or> (\<exists>p \<in> set (getParents g current). path p = path next),
        hasDown \<or> (\<exists>c \<in> set (getChildren g current). path c = path next))"
| "scan_direction g pth acc = acc"

definition determineDirection :: "TFile list \<Rightarrow> graph \<Rightarrow> Direction" where
  "determineDirection pth g =
     (if length pth < 2 then mixed
      else (case scan_direction g pth (False, False) of
              (hasUp, hasDown) \<Rightarrow>
                if hasUp \<and> \<not> hasDown then up
                else if hasDown \<and> \<not> hasUp then down
                else mixed))"

text \<open>The inner \<open>dfs\<close> of \<open>findAllPaths\<close>. It closes over \<open>start\<close>, \<open>end\<close>, \<open>graph\<close>
  and \<open>maxLength\<close>, and pushes to the shared array \<open>paths\<close>: the model returns the paths
  pushed, in the order of the pushes. Each recursive call gets \<open>new Set(visited)\<close>, a copy,
  so the callee's additions are not seen by the caller.\<close>

function all_paths_dfs ::
  "graph \<Rightarrow> TFile \<Rightarrow> TFile \<Rightarrow> number \<Rightarrow> TFile \<Rightarrow> TFile \<Rightarrow> TFile list \<Rightarrow> string set \<Rightarrow> NotePath list" where
  "all_paths_dfs g s e maxLength current target pth visited =
     (if num_greater (int (length pth)) maxLength then []
      else if path current = path target
        then [\<lparr>start = s, end_np = e, path_np = pth, length_np = int (length pth) - 1,
                direction = determineDirection pth g\<rparr>]
      else
        concat (map (\<lambda>parent.
                  if path parent \<notin> insert (path current) visited
                  then all_paths_dfs g s e maxLength parent target (pth @ [parent])
                         (insert (path current) visited)
                  else [])
                (getParents g current))
        @ concat (map (\<lambda>child.
                  if path child \<notin> insert (path current) visited
                  then all_paths_dfs g s e maxLength child target (pth @ [child])
                         (insert (path current) visited)
                  else [])
                (getChildren g current)))"
  by pat_completeness auto

lemma all_paths_dfs_decreases:
  assumes "n \<in> set (getParents g current) \<or> n \<in> set (getChildren g current)"
    and "path n \<notin> insert (path current) visited"
  shows "card (set (all_paths g) - insert (path n) (insert (path current) visited))
         < card (set (all_paths g) - insert (path current) visited)"
proof -
  have "path n \<in> set (all_paths g)"
    using assms(1) getParents_all_paths[of g current] getChildren_all_paths[of g current] by auto
  with assms(2) show ?thesis by (intro psubset_card_mono) auto
qed

lemma all_paths_dfs_total: "All all_paths_dfs_dom"
  by (relation "measure (\<lambda>(g, s, e, m, current, target, pth, visited).
                  card (set (all_paths g) - insert (path current) visited))")
     (auto intro: all_paths_dfs_decreases)

termination all_paths_dfs
  by (rule all_paths_dfs_total)

declare all_paths_dfs.simps [simp del]

text \<open>\<open>maxLength: number = 10\<close>; \<open>Array.prototype.sort\<close> is stable, as \<open>sort_key\<close> is.\<close>

definition findAllPaths :: "TFile \<Rightarrow> TFile \<Rightarrow> graph \<Rightarrow> number option \<Rightarrow> NotePath list" where
  "findAllPaths s e g maxLength =
     sort_key length_np
       (all_paths_dfs g s e (case maxLength of None \<Rightarrow> Finite 10 | Some m \<Rightarrow> m) s e [s] {})"

section \<open>Example graphs\<close>

definition docA :: TFile where "docA = \<lparr>path = ''A.md'', basename = ''A''\<rparr>"
definition docB :: TFile where "docB = \<lparr>path = ''B.md'', basename = ''B''\<rparr>"
definition docC :: TFile where "docC = \<lparr>path = ''C.md'', basename = ''C''\<rparr>"
definition docD :: TFile where "docD = \<lparr>path = ''D.md'', basename = ''D''\<rparr>"

lemmas doc_defs = docA_def docB_def docC_def docD_def

text \<open>A has parent B.\<close>

definition graph_edge :: graph where
  "graph_edge =
     [(''A.md'', \<lparr>file' = docA, parents = [docB], children = []\<rparr>),
      (''B.md'', \<lparr>file' = docB, parents = [], children = [docA]\<rparr>)]"

text \<open>A is its own parent.\<close>

definition graph_self :: graph where
  "graph_self = [(''A.md'', \<lparr>file' = docA, parents = [docA], children = [docA]\<rparr>)]"

text \<open>The diamond: A has parents B and C, and both have parent D.\<close>

definition graph_diamond :: graph where
  "graph_diamond =
     [(''A.md'', \<lparr>file' = docA, parents = [docB, docC], children = []\<rparr>),
      (''B.md'', \<lparr>file' = docB, parents = [docD], children = [docA]\<rparr>),
      (''C.md'', \<lparr>file' = docC, parents = [docD], children = [docA]\<rparr>),
      (''D.md'', \<lparr>file' = docD, parents = [], children = [docB, docC]\<rparr>)]"

text \<open>The chain: A has parent B, B has parent C, C has parent D.\<close>

definition graph_chain :: graph where
  "graph_chain =
     [(''A.md'', \<lparr>file' = docA, parents = [docB], children = []\<rparr>),
      (''B.md'', \<lparr>file' = docB, parents = [docC], children = [docA]\<rparr>),
      (''C.md'', \<lparr>file' = docC, parents = [docD], children = [docB]\<rparr>),
      (''D.md'', \<lparr>file' = docD, parents = [], children = [docC]\<rparr>)]"

section \<open>Properties\<close>

subsection \<open>Generations\<close>

text \<open>What the level loop adds to \<open>result\<close>: generations that are not empty, of documents
  that were not in \<open>visited\<close>, each at most once over all the generations.\<close>

lemma ancestors_loop_props:
  "\<exists>new. ancestors_loop g level depth cur visited result = result @ new
     \<and> path ` set (concat new) \<inter> visited = {}
     \<and> distinct (map path (concat new)) \<and> [] \<notin> set new"
proof (induction g level depth cur visited result rule: ancestors_loop.induct)
  case (1 g level depth cur visited result)
  obtain ng seen v' where sg: "scan_generation g cur visited = (ng, seen, v')"
    by (cases "scan_generation g cur visited") auto
  show ?case
  proof (cases "num_less level depth \<and> ng \<noteq> []")
    case False
    then have "ancestors_loop g level depth cur visited result = result"
      using sg by (subst ancestors_loop.simps) auto
    then show ?thesis by (intro exI[of _ "[]"]) simp
  next
    case True
    then have eq: "ancestors_loop g level depth cur visited result
                 = ancestors_loop g (level + 1) depth ng v' (result @ [ng])"
      using sg by (subst ancestors_loop.simps) auto
    from "1.IH"[OF _ sg[symmetric] refl] True obtain new where
      n: "ancestors_loop g (level + 1) depth ng v' (result @ [ng]) = (result @ [ng]) @ new"
         "path ` set (concat new) \<inter> v' = {}" "distinct (map path (concat new))" "[] \<notin> set new"
      by blast
    from scan_generation_props[OF sg] have
      p: "v' = visited \<union> path ` set ng" "path ` set ng \<inter> visited = {}" "distinct (map path ng)"
      by auto
    show ?thesis
    proof (intro exI[of _ "ng # new"] conjI)
      show "ancestors_loop g level depth cur visited result = result @ ng # new"
        using eq n(1) by simp
      show "path ` set (concat (ng # new)) \<inter> visited = {}" using n(2) p by auto
      show "distinct (map path (concat (ng # new)))" using n(2,3) p by auto
      show "[] \<notin> set (ng # new)" using n(4) True by auto
    qed
  qed
qed

lemma scan_parents_all_visited:
  "\<forall>p \<in> set ps. path p \<in> v \<Longrightarrow> scan_parents ps (ng, seen, v) = (ng, seen, v)"
  by (induction ps) auto

lemma ancestors_loop_no_new_parent:
  assumes "\<forall>p \<in> set (getParents g f). path p \<in> v"
  shows "ancestors_loop g level depth [f] v result = result"
proof -
  have "scan_generation g [f] v = ([], {}, v)"
    using assms by (simp add: scan_generation_def scan_parents_all_visited)
  then show ?thesis by (subst ancestors_loop.simps) simp
qed

lemma getParents_absent: "map_of g (path f) = None \<Longrightarrow> getParents g f = []"
  by (simp add: getParents_def)

lemma getChildren_absent: "map_of g (path f) = None \<Longrightarrow> getChildren g f = []"
  by (simp add: getChildren_def)

text \<open>
  C7. In the diamond (A has parents B and C, both have parent D), \<open>getAncestors(A, 2)\<close> is
  \<open>[[B, C], [D]]\<close>. For every graph, document and depth, a document appears at most once
  in all the generations together (so in at most one generation, and once in it), and the
  start document appears in none.
\<close>

theorem getAncestors_generations_distinct:
  "getAncestors graphMaxDepth graph_diamond docA (Some (Finite 2)) = [[docB, docC], [docD]]
   \<and> distinct (map path (concat (getAncestors graphMaxDepth g doc maxDepth)))
   \<and> path doc \<notin> path ` set (concat (getAncestors graphMaxDepth g doc maxDepth))"
proof (intro conjI)
  show "getAncestors graphMaxDepth graph_diamond docA (Some (Finite 2)) = [[docB, docC], [docD]]"
    by (simp add: getAncestors_def graph_diamond_def doc_defs getParents_def scan_generation_def)
  define depth where "depth = (case maxDepth of Some d \<Rightarrow> d | None \<Rightarrow> getMaxDepth graphMaxDepth)"
  from ancestors_loop_props[of g 0 depth "[doc]" "{path doc}" "[]"]
  obtain gens where g: "ancestors_loop g 0 depth [doc] {path doc} [] = [] @ gens"
    "path ` set (concat gens) \<inter> {path doc} = {}" "distinct (map path (concat gens))"
    by blast
  have e: "getAncestors graphMaxDepth g doc maxDepth = gens"
    using g(1) by (simp add: getAncestors_def depth_def)
  show "distinct (map path (concat (getAncestors graphMaxDepth g doc maxDepth)))"
    using g(3) e by simp
  show "path doc \<notin> path ` set (concat (getAncestors graphMaxDepth g doc maxDepth))"
    using g(2) e by blast
qed

text \<open>
  C2 (amended). For a document that is its own parent, no generation of
  \<open>getAncestors(doc, maxDepth)\<close> contains the document: the visited set is seeded with it, so
  the self-referencing edge is skipped. When the document has no parent but itself, the
  result is \<open>[]\<close>, with no generation at all.
\<close>

theorem getAncestors_self_parent_excluded:
  assumes "path doc \<in> path ` set (getParents g doc)"
  shows "path doc \<notin> path ` set (concat (getAncestors graphMaxDepth g doc maxDepth))
         \<and> ((\<forall>p \<in> set (getParents g doc). path p = path doc)
              \<longrightarrow> getAncestors graphMaxDepth g doc maxDepth = [])"
proof -
  define depth where "depth = (case maxDepth of Some d \<Rightarrow> d | None \<Rightarrow> getMaxDepth graphMaxDepth)"
  from ancestors_loop_props[of g 0 depth "[doc]" "{path doc}" "[]"]
  obtain gens where g: "ancestors_loop g 0 depth [doc] {path doc} [] = [] @ gens"
    "path ` set (concat gens) \<inter> {path doc} = {}" by blast
  have e: "getAncestors graphMaxDepth g doc maxDepth = gens"
    using g(1) by (simp add: getAncestors_def depth_def)
  have "(\<forall>p \<in> set (getParents g doc). path p = path doc) \<longrightarrow> gens = []"
    using ancestors_loop_no_new_parent[of g doc "{path doc}" 0 depth "[]"] g(1) by auto
  moreover have "path doc \<notin> path ` set (concat gens)" using g(2) by blast
  ultimately show ?thesis using e by simp
qed

theorem getAncestors_self_parent_excluded_witness:
  "path docA \<in> path ` set (getParents graph_self docA)
   \<and> getAncestors (Finite 5) graph_self docA (Some (Finite 1)) = []"
proof -
  have h: "path docA \<in> path ` set (getParents graph_self docA)"
    by (simp add: graph_self_def doc_defs getParents_def)
  have a: "\<forall>p \<in> set (getParents graph_self docA). path p = path docA"
    by (simp add: graph_self_def doc_defs getParents_def)
  from getAncestors_self_parent_excluded[OF h, of "Finite 5" "Some (Finite 1)"] a h
  show ?thesis by auto
qed

theorem getAncestors_self_parent_counterexample:
  "docA \<in> set (getParents graph_self docA)
   \<and> getAncestors (Finite 5) graph_self docA (Some (Finite 1)) = []
   \<and> getAncestors (Finite 5) graph_self docA (Some (Finite 1)) \<noteq> [[docA]]"
  by (simp add: getAncestors_def graph_self_def doc_defs getParents_def scan_generation_def)

subsection \<open>The default depth\<close>





subsection \<open>Absent documents\<close>

text \<open>
  C10. For a document that has no node in the graph, \<open>getParents\<close> and \<open>getChildren\<close> return
  the empty list and \<open>detectCycle\<close> returns null. The other queries return their empty
  results too, none raises: \<open>getCycleInfo\<close> is null, \<open>getAncestors\<close> is \<open>[]\<close> with a depth and
  without one, and towards another document \<open>findShortestPath\<close> is null and \<open>findAllPaths\<close>
  is \<open>[]\<close>.
\<close>

theorem absent_document_is_inert:
  assumes "map_of g (path doc) = None"
  shows "getParents g doc = [] \<and> getChildren g doc = []
         \<and> detectCycle g doc = None \<and> getCycleInfo g doc = None
         \<and> getAncestors graphMaxDepth g doc maxDepth = []
         \<and> (path doc \<noteq> path e \<longrightarrow> findShortestPath doc e g = None \<and> findAllPaths doc e g maxLength = [])"
proof -
  have p: "getParents g doc = []" and c: "getChildren g doc = []"
    using assms by (simp_all add: getParents_absent getChildren_absent)
  have d: "detectCycle g doc = None"
    by (simp add: detectCycle_def dfs.simps p)
  have a: "getAncestors graphMaxDepth g doc maxDepth = []"
    using ancestors_loop_no_new_parent[of g doc "{path doc}" 0 _ "[]"] p
    by (simp add: getAncestors_def)
  have s: "path doc \<noteq> path e \<Longrightarrow> findShortestPath doc e g = None"
    by (simp add: findShortestPath_def bfs.simps p c)
  have f: "path doc \<noteq> path e \<Longrightarrow> findAllPaths doc e g maxLength = []"
    by (simp add: findAllPaths_def all_paths_dfs.simps p c)
  from p c d a s f show ?thesis by (simp add: getCycleInfo_def)
qed

theorem absent_document_is_inert_witness:
  "map_of graph_edge (path docC) = None
   \<and> getParents graph_edge docC = [] \<and> getChildren graph_edge docC = []
   \<and> detectCycle graph_edge docC = None \<and> getCycleInfo graph_edge docC = None
   \<and> getAncestors (Finite 5) graph_edge docC None = []
   \<and> findShortestPath docC docA graph_edge = None \<and> findAllPaths docC docA graph_edge None = []"
proof -
  have h: "map_of graph_edge (path docC) = None"
    by (simp add: graph_edge_def doc_defs)
  have n: "path docC \<noteq> path docA" by (simp add: doc_defs)
  from absent_document_is_inert[OF h, of "Finite 5" None docA None] h n show ?thesis by simp
qed

subsection \<open>build: children as the inverse index of parents\<close>

text \<open>On a map with distinct keys, \<open>set\<close> on a present key replaces the value in place, and
  the second pass of \<open>build\<close> appends to each node the inverse index of its key.\<close>

lemma map_set_keys:
  "map fst (map_set k v g) = (if k \<in> fst ` set g then map fst g else map fst g @ [k])"
  by (induction k v g rule: map_set.induct) auto

lemma map_set_distinct: "distinct (map fst g) \<Longrightarrow> distinct (map fst (map_set k v g))"
  by (simp add: map_set_keys)

lemma map_set_entries: "set (map_set k v g) \<subseteq> insert (k, v) (set g)"
  by (induction k v g rule: map_set.induct) auto

lemma map_set_as_map:
  "distinct (map fst g) \<Longrightarrow> map_of g k = Some n \<Longrightarrow>
     map_set k v g = map (\<lambda>kv. if fst kv = k then (k, v) else kv) g"
proof (induction g)
  case Nil
  then show ?case by simp
next
  case (Cons a g)
  show ?case
  proof (cases "fst a = k")
    case True
    then have "k \<notin> fst ` set g" using Cons.prems(1) by auto
    then have "map (\<lambda>kv. if fst kv = k then (k, v) else kv) g = g"
      by (intro map_idI) force
    with True show ?thesis by (cases a) simp
  next
    case False
    with Cons show ?thesis by (cases a) auto
  qed
qed

text \<open>The node at key \<open>k\<close> gets the children \<open>cs\<close> appended.\<close>

definition add_children :: "(string \<Rightarrow> TFile list) \<Rightarrow> graph \<Rightarrow> graph" where
  "add_children cs g = map (\<lambda>kv. (fst kv, (snd kv)\<lparr>children := children (snd kv) @ cs (fst kv)\<rparr>)) g"

lemma add_children_keys [simp]: "map fst (add_children cs g) = map fst g"
  by (simp add: add_children_def comp_def)

lemma push_child_as_map:
  assumes "distinct (map fst g)"
  shows "push_child k c g = add_children (\<lambda>k'. if k' = k then [c] else []) g"
proof (cases "map_of g k")
  case None
  then have "k \<notin> fst ` set g" by (simp add: map_of_eq_None_iff)
  then have "add_children (\<lambda>k'. if k' = k then [c] else []) g = g"
    unfolding add_children_def by (intro map_idI) force
  with None show ?thesis by (simp add: push_child_def)
next
  case (Some n)
  have "map (\<lambda>kv. if fst kv = k then (k, n\<lparr>children := children n @ [c]\<rparr>) else kv) g
        = add_children (\<lambda>k'. if k' = k then [c] else []) g"
    unfolding add_children_def
  proof (rule map_cong[OF refl])
    fix kv assume kv: "kv \<in> set g"
    show "(if fst kv = k then (k, n\<lparr>children := children n @ [c]\<rparr>) else kv)
        = (fst kv, (snd kv)\<lparr>children := children (snd kv) @ (if fst kv = k then [c] else [])\<rparr>)"
    proof (cases "fst kv = k")
      case True
      with kv have "(k, snd kv) \<in> set g" by (cases kv) auto
      with assms have "map_of g k = Some (snd kv)" by simp
      with Some have "snd kv = n" by simp
      with True show ?thesis by simp
    next
      case False
      then show ?thesis by simp
    qed
  qed
  with Some assms show ?thesis by (simp add: push_child_def map_set_as_map)
qed

lemma add_children_twice:
  "add_children cs2 (add_children cs1 g) = add_children (\<lambda>k. cs1 k @ cs2 k) g"
  by (simp add: add_children_def comp_def)

lemma fold_push_child:
  "distinct (map fst g) \<Longrightarrow>
     fold (\<lambda>parent. push_child (path parent) f) ps g
     = add_children (\<lambda>k. map (\<lambda>_. f) (filter (\<lambda>p. path p = k) ps)) g"
proof (induction ps arbitrary: g rule: rev_induct)
  case Nil
  show ?case unfolding add_children_def by (simp add: map_idI)
next
  case (snoc p ps)
  have d: "distinct (map fst (add_children (\<lambda>k. map (\<lambda>_. f) (filter (\<lambda>p. path p = k) ps)) g))"
    using snoc.prems by simp
  show ?case
    using snoc.IH[OF snoc.prems]
    by (simp add: push_child_as_map[OF d] add_children_twice) (rule arg_cong2[where f = add_children], auto)
qed

text \<open>The children that the second pass of \<open>build\<close> gives to the node at key \<open>k\<close>: the
  file of each node, in map order, once for each occurrence of \<open>k\<close> among its parents.\<close>

definition inverse_index :: "NodeInfo list \<Rightarrow> string \<Rightarrow> TFile list" where
  "inverse_index nodes k =
     concat (map (\<lambda>node. map (\<lambda>_. file' node) (filter (\<lambda>p. path p = k) (parents node))) nodes)"

lemma fold_link:
  "distinct (map fst g) \<Longrightarrow>
     fold (\<lambda>node g'. fold (\<lambda>parent. push_child (path parent) (file' node)) (parents node) g') nodes g
     = add_children (inverse_index nodes) g"
proof (induction nodes arbitrary: g rule: rev_induct)
  case Nil
  show ?case unfolding add_children_def inverse_index_def by (simp add: map_idI)
next
  case (snoc m ms)
  have d: "distinct (map fst (add_children (inverse_index ms) g))"
    using snoc.prems by simp
  have "fold (\<lambda>node g'. fold (\<lambda>parent. push_child (path parent) (file' node)) (parents node) g') (ms @ [m]) g
      = fold (\<lambda>parent. push_child (path parent) (file' m)) (parents m) (add_children (inverse_index ms) g)"
    using snoc.IH[OF snoc.prems] by simp
  also have "\<dots> = add_children (\<lambda>k. map (\<lambda>_. file' m) (filter (\<lambda>p. path p = k) (parents m)))
                      (add_children (inverse_index ms) g)"
    by (rule fold_push_child[OF d])
  also have "\<dots> = add_children (\<lambda>k. inverse_index ms k @ map (\<lambda>_. file' m) (filter (\<lambda>p. path p = k) (parents m))) g"
    by (rule add_children_twice)
  also have "(\<lambda>k. inverse_index ms k @ map (\<lambda>_. file' m) (filter (\<lambda>p. path p = k) (parents m)))
           = inverse_index (ms @ [m])"
    by (rule ext) (simp add: inverse_index_def)
  finally show ?case .
qed

lemma link_children_eq:
  "distinct (map fst g) \<Longrightarrow> link_children g = add_children (inverse_index (map snd g)) g"
  by (simp add: link_children_def fold_link)


lemma build_nodes_inv:
  "distinct (map fst (build_nodes app pf))
   \<and> (\<forall>kv \<in> set (build_nodes app pf). path (file' (snd kv)) = fst kv \<and> children (snd kv) = [])"
proof -
  define node where "node = (\<lambda>f. \<lparr>file' = f, parents = extractParentLinks app pf (getFileCache app f),
                                  children = []\<rparr>)"
  define ok where "ok = (\<lambda>kv :: string \<times> NodeInfo. path (file' (snd kv)) = fst kv \<and> children (snd kv) = [])"
  have step: "distinct (map fst (fold (\<lambda>f. map_set (path f) (node f)) fs g))
            \<and> (\<forall>kv \<in> set (fold (\<lambda>f. map_set (path f) (node f)) fs g). ok kv)"
    if "distinct (map fst g)" and "\<forall>kv \<in> set g. ok kv" for fs g
    using that
  proof (induction fs arbitrary: g)
    case Nil
    then show ?case by simp
  next
    case (Cons f fs)
    have d: "distinct (map fst (map_set (path f) (node f) g))"
      using Cons.prems(1) by (rule map_set_distinct)
    have "ok (path f, node f)" by (simp add: ok_def node_def)
    with Cons.prems(2) have "\<forall>kv \<in> insert (path f, node f) (set g). ok kv" by simp
    with map_set_entries[of "path f" "node f" g]
    have o: "\<forall>kv \<in> set (map_set (path f) (node f) g). ok kv" by blast
    from Cons.IH[OF d o] show ?case by simp
  qed
  have "build_nodes app pf = fold (\<lambda>f. map_set (path f) (node f)) (getMarkdownFiles app) []"
    by (simp add: build_nodes_def node_def)
  with step[of "[]" "getMarkdownFiles app"] show ?thesis by (simp add: ok_def)
qed

lemma build_eq:
  "build app pf = add_children (inverse_index (map snd (build_nodes app pf))) (build_nodes app pf)"
  using build_nodes_inv[of app pf] by (simp add: build_def link_children_eq)

lemma map_of_add_children:
  "map_of (add_children cs g) k = map_option (\<lambda>n. n\<lparr>children := children n @ cs k\<rparr>) (map_of g k)"
  by (induction g) (auto simp: add_children_def)

lemma inverse_index_Cons:
  "inverse_index (n # ns) k
   = map (\<lambda>_. file' n) (filter (\<lambda>p. path p = k) (parents n)) @ inverse_index ns k"
  by (simp add: inverse_index_def)

lemma count_list_const: "count_list (map (\<lambda>_. c) xs) k = (if c = k then length xs else 0)"
  by (induction xs) auto

lemma length_filter_path: "length (filter (\<lambda>p. path p = kp) ps) = count_list (map path ps) kp"
  by (induction ps) auto

lemma count_inverse_index:
  assumes "distinct (map fst g)" and "\<forall>kv \<in> set g. path (file' (snd kv)) = fst kv"
  shows "count_list (map path (inverse_index (map snd g) kp)) k
         = (case map_of g k of None \<Rightarrow> 0 | Some cnode \<Rightarrow> count_list (map path (parents cnode)) kp)"
  using assms
proof (induction g)
  case Nil
  then show ?case by (simp add: inverse_index_def)
next
  case (Cons a g)
  obtain ka n where a: "a = (ka, n)" by (cases a)
  have pn: "path (file' n) = ka" using Cons.prems(2) a by simp
  have ih: "count_list (map path (inverse_index (map snd g) kp)) k
         = (case map_of g k of None \<Rightarrow> 0 | Some cnode \<Rightarrow> count_list (map path (parents cnode)) kp)"
    using Cons by simp
  have "count_list (map path (inverse_index (map snd (a # g)) kp)) k
      = count_list (map (\<lambda>_. ka) (filter (\<lambda>p. path p = kp) (parents n))) k
        + count_list (map path (inverse_index (map snd g) kp)) k"
    by (simp add: a inverse_index_Cons pn comp_def)
  also have "\<dots> = (if ka = k then count_list (map path (parents n)) kp else 0)
        + (case map_of g k of None \<Rightarrow> 0 | Some cnode \<Rightarrow> count_list (map path (parents cnode)) kp)"
    by (simp only: count_list_const length_filter_path ih)
  also have "\<dots> = (case map_of (a # g) k of None \<Rightarrow> 0 | Some cnode \<Rightarrow> count_list (map path (parents cnode)) kp)"
  proof (cases "ka = k")
    case True
    then have "map_of g k = None" using Cons.prems(1) a by (simp add: map_of_eq_None_iff)
    with True a show ?thesis by simp
  next
    case False
    with a show ?thesis by simp
  qed
  finally show ?case .
qed

text \<open>Two vaults. In \<open>app_dup\<close>, A lists the parent B twice. In \<open>app_ext\<close>, the parent link
  of A resolves to a file that is no markdown file, so it has no node.\<close>

definition docX :: TFile where "docX = \<lparr>path = ''X.png'', basename = ''X''\<rparr>"

definition app_dup :: App where
  "app_dup =
     \<lparr>getMarkdownFiles = [docA, docB],
      getFileCache = (\<lambda>f. if path f = ''A.md''
         then Some \<lparr>frontmatter = Some [''parent'' \<mapsto> Many [''B'', ''B'']], meta_path = None\<rparr>
         else Some \<lparr>frontmatter = None, meta_path = None\<rparr>),
      getFirstLinkpathDest = (\<lambda>ref src. if ref = ''B'' then Some docB else None)\<rparr>"

definition app_ext :: App where
  "app_ext =
     \<lparr>getMarkdownFiles = [docA],
      getFileCache = (\<lambda>f. Some \<lparr>frontmatter = Some [''parent'' \<mapsto> Scalar ''X.png''], meta_path = None\<rparr>),
      getFirstLinkpathDest = (\<lambda>ref src. if ref = ''X.png'' then Some docX else None)\<rparr>"

lemma build_app_dup:
  "build app_dup ''parent'' =
     [(''A.md'', \<lparr>file' = docA, parents = [docB, docB], children = []\<rparr>),
      (''B.md'', \<lparr>file' = docB, parents = [], children = [docA, docA]\<rparr>)]"
  by (simp add: build_def link_children_def build_nodes_def push_child_def extractParentLinks_def
        resolveLink_def List.map_filter_def app_dup_def doc_defs)

lemma build_app_ext:
  "build app_ext ''parent'' = [(''A.md'', \<lparr>file' = docA, parents = [docX], children = []\<rparr>)]"
  by (simp add: build_def link_children_def build_nodes_def push_child_def extractParentLinks_def
        resolveLink_def List.map_filter_def app_ext_def doc_defs docX_def)

text \<open>
  C3 (amended). After \<open>build\<close>, for every document P of the graph and every path \<open>k\<close>: the
  document with path \<open>k\<close> appears in the children of P as many times as P occurs in the
  parents of that document (once when it is listed once), and a path that is no document
  of the graph does not appear in the children of P at all.
\<close>

theorem build_children_inverse_index:
  assumes "map_of (build app parentField) kp = Some pnode"
  shows "count_list (map path (children pnode)) k
         = (case map_of (build app parentField) k of
              None \<Rightarrow> 0
            | Some cnode \<Rightarrow> count_list (map path (parents cnode)) kp)"
proof -
  let ?g1 = "build_nodes app parentField"
  from build_nodes_inv[of app parentField] have
    d: "distinct (map fst ?g1)" and
    f: "\<forall>kv \<in> set ?g1. path (file' (snd kv)) = fst kv" and
    c: "\<forall>kv \<in> set ?g1. children (snd kv) = []" by auto
  from assms obtain n where n: "map_of ?g1 kp = Some n"
    "pnode = n\<lparr>children := children n @ inverse_index (map snd ?g1) kp\<rparr>"
    by (auto simp: build_eq map_of_add_children)
  from n(1) have "(kp, n) \<in> set ?g1" by (rule map_of_SomeD)
  with c have "children n = []" by force
  with n(2) have ch: "children pnode = inverse_index (map snd ?g1) kp" by simp
  have "(case map_of (build app parentField) k of None \<Rightarrow> 0
          | Some cnode \<Rightarrow> count_list (map path (parents cnode)) kp)
      = (case map_of ?g1 k of None \<Rightarrow> 0 | Some cnode \<Rightarrow> count_list (map path (parents cnode)) kp)"
    by (cases "map_of ?g1 k") (simp_all add: build_eq map_of_add_children)
  with count_inverse_index[OF d f, of kp k] ch show ?thesis by simp
qed


theorem build_children_inverse_index_witness:
  "map_of (build app_dup ''parent'') ''B.md''
     = Some \<lparr>file' = docB, parents = [], children = [docA, docA]\<rparr>
   \<and> count_list (map path (children \<lparr>file' = docB, parents = [], children = [docA, docA]\<rparr>)) ''A.md''
     = (case map_of (build app_dup ''parent'') ''A.md'' of
          None \<Rightarrow> 0
        | Some cnode \<Rightarrow> count_list (map path (parents cnode)) ''B.md'')
   \<and> count_list (map path (children \<lparr>file' = docB, parents = [], children = [docA, docA]\<rparr>)) ''A.md'' = 2"
proof -
  have h: "map_of (build app_dup ''parent'') ''B.md''
     = Some \<lparr>file' = docB, parents = [], children = [docA, docA]\<rparr>"
    by (simp add: build_app_dup)
  have "count_list (map path (children \<lparr>file' = docB, parents = [], children = [docA, docA]\<rparr>)) ''A.md'' = 2"
    by (simp add: doc_defs)
  with build_children_inverse_index[OF h, of "''A.md''"] h show ?thesis by simp
qed

text \<open>C3 as stated fails: a parent listed twice gets the child twice, and a parent
  that has no node gets no children list.\<close>

theorem build_children_counterexample:
  "docB \<in> set (getParents (build app_dup ''parent'') docA)
   \<and> count_list (getChildren (build app_dup ''parent'') docB) docA = 2
   \<and> docX \<in> set (getParents (build app_ext ''parent'') docA)
   \<and> count_list (getChildren (build app_ext ''parent'') docX) docA = 0"
  by (simp add: build_app_dup build_app_ext getParents_def getChildren_def doc_defs docX_def)

section \<open>The cycle detector is correct\<close>

subsection \<open>What a search without a cycle leaves behind\<close>

text \<open>A call that finds no cycle restores the path stack, finishes (blackens) the
  documents it was called on, changes no document that was already in progress or
  finished, and leaves no new document in progress.\<close>

lemma dfs_result_cases:
  obtains (Cycle) ci s' p' where "dfs g c st p = (Some ci, s', p')"
        | (NoCycle) s' p' where "dfs g c st p = (None, s', p')"
  by (cases "dfs g c st p"; cases "fst (dfs g c st p)") auto

lemma dfs_unfold:
  "dfs_parents g (getParents g c) (st(path c \<mapsto> GRAY)) (p @ [c]) = (r, s', p') \<Longrightarrow>
   dfs g c st p = (case r of Some ci \<Rightarrow> (Some ci, s', p') | None \<Rightarrow> (None, s'(path c \<mapsto> BLACK), butlast p'))"
  by (cases r) (simp_all add: dfs.simps)

lemma dfs_none_frame:
  shows "dfs g c st p = (None, st', p') \<Longrightarrow>
           p' = p \<and> st' (path c) = Some BLACK
           \<and> (\<forall>u. u \<noteq> path c \<longrightarrow> \<not> is_white st u \<longrightarrow> st' u = st u)
           \<and> (\<forall>u. st' u = Some GRAY \<longrightarrow> st u = Some GRAY)"
    and "dfs_parents g ps st p = (None, st', p') \<Longrightarrow>
           p' = p \<and> (\<forall>q \<in> set ps. st' (path q) = Some BLACK)
           \<and> (\<forall>u. \<not> is_white st u \<longrightarrow> st' u = st u)
           \<and> (\<forall>u. st' u = Some GRAY \<longrightarrow> st u = Some GRAY)"
proof (induction g c st p and g ps st p arbitrary: st' p' and st' p' rule: dfs_dfs_parents.induct)
  case (1 g current states pth)
  obtain r s2 p2 where d: "dfs_parents g (getParents g current) (states(path current \<mapsto> GRAY)) (pth @ [current]) = (r, s2, p2)"
    by (cases "dfs_parents g (getParents g current) (states(path current \<mapsto> GRAY)) (pth @ [current])") auto
  from "1.prems" dfs_unfold[OF d] have "r = None \<and> st' = s2(path current \<mapsto> BLACK) \<and> p' = butlast p2"
    by (cases r) auto
  then have r: "r = None" and st': "st' = s2(path current \<mapsto> BLACK)" and p': "p' = butlast p2"
    by simp_all
  from d r have d': "dfs_parents g (getParents g current) (states(path current \<mapsto> GRAY)) (pth @ [current]) = (None, s2, p2)"
    by simp
  from "1.IH"[OF d'] have
    ih: "p2 = pth @ [current]" "\<forall>u. \<not> is_white (states(path current \<mapsto> GRAY)) u \<longrightarrow> s2 u = (states(path current \<mapsto> GRAY)) u"
        "\<forall>u. s2 u = Some GRAY \<longrightarrow> (states(path current \<mapsto> GRAY)) u = Some GRAY"
    by blast+
  show ?case
  proof (intro conjI allI impI)
    show "p' = pth" using p' ih(1) by simp
    show "st' (path current) = Some BLACK" using st' by simp
    show "st' u = states u" if "u \<noteq> path current" "\<not> is_white states u" for u
      using that ih(2) st' by (simp add: is_white_def)
    show "states u = Some GRAY" if "st' u = Some GRAY" for u
      using that ih(3) st' by (auto split: if_splits)
  qed
next
  case (2 g states pth)
  then show ?case by simp
next
  case (3 g parent rest states pth)
  show ?case
  proof (cases "state_of states parent")
    case GRAY
    with "3.prems" show ?thesis by simp
  next
    case BLACK
    with "3.prems" have rec: "dfs_parents g rest states pth = (None, st', p')" by simp
    from "3.IH"(3)[OF BLACK rec] have
      ih: "p' = pth" "\<forall>q \<in> set rest. st' (path q) = Some BLACK"
          "\<forall>u. \<not> is_white states u \<longrightarrow> st' u = states u" "\<forall>u. st' u = Some GRAY \<longrightarrow> states u = Some GRAY"
      by blast+
    from BLACK have "states (path parent) = Some BLACK"
      by (auto simp: state_of_def split: option.splits)
    with ih(3) have "st' (path parent) = Some BLACK" by (simp add: is_white_def)
    with ih show ?thesis by simp
  next
    case WHITE
    show ?thesis
    proof (cases rule: dfs_result_cases[of g parent states pth])
      case (Cycle ci s1 p1)
      with WHITE "3.prems" show ?thesis by simp
    next
      case (NoCycle s1 p1)
      with WHITE "3.prems" have rec: "dfs_parents g rest s1 p1 = (None, st', p')" by simp
      from "3.IH"(1)[OF WHITE NoCycle] have
        a: "p1 = pth" "s1 (path parent) = Some BLACK"
           "\<forall>u. u \<noteq> path parent \<longrightarrow> \<not> is_white states u \<longrightarrow> s1 u = states u"
           "\<forall>u. s1 u = Some GRAY \<longrightarrow> states u = Some GRAY"
        by blast+
      from "3.IH"(2)[OF WHITE NoCycle[symmetric] refl refl rec] have
        b: "p' = p1" "\<forall>q \<in> set rest. st' (path q) = Some BLACK"
           "\<forall>u. \<not> is_white s1 u \<longrightarrow> st' u = s1 u" "\<forall>u. st' u = Some GRAY \<longrightarrow> s1 u = Some GRAY"
        by blast+
      from WHITE have w: "is_white states (path parent)" by (simp add: state_of_white)
      show ?thesis
      proof (intro conjI allI impI ballI)
        show "p' = pth" using a(1) b(1) by simp
        show "st' (path q) = Some BLACK" if "q \<in> set (parent # rest)" for q
          using that a(2) b(2,3) by (auto simp: is_white_def)
        show "st' u = states u" if "\<not> is_white states u" for u
        proof -
          from that w have "u \<noteq> path parent" by auto
          with that a(3) have "s1 u = states u" by simp
          with that b(3) show ?thesis by (simp add: is_white_def)
        qed
        show "states u = Some GRAY" if "st' u = Some GRAY" for u
          using that a(4) b(4) by simp
      qed
    qed
  qed
qed


subsection \<open>Cycles of parent edges\<close>

text \<open>The parent edges between paths, and the documents from which a cycle of parent
  edges can be reached.\<close>

definition parent_rel :: "graph \<Rightarrow> (string \<times> string) set" where
  "parent_rel g =
     {(a, b). b \<in> path ` set (case map_of g a of None \<Rightarrow> [] | Some n \<Rightarrow> parents n)}"

definition reaches_cycle :: "graph \<Rightarrow> string \<Rightarrow> bool" where
  "reaches_cycle g a = (\<exists>b. (a, b) \<in> (parent_rel g)\<^sup>* \<and> (b, b) \<in> (parent_rel g)\<^sup>+)"

lemma parent_rel_getParents: "(path f, b) \<in> parent_rel g \<longleftrightarrow> b \<in> path ` set (getParents g f)"
  by (simp add: parent_rel_def getParents_def)

lemma reaches_cycle_step:
  "(a, b) \<in> parent_rel g \<Longrightarrow> reaches_cycle g b \<Longrightarrow> reaches_cycle g a"
  unfolding reaches_cycle_def by (meson converse_rtrancl_into_rtrancl)

text \<open>The invariant of the finished documents: every parent of a finished document is
  finished, and no finished document lies on a cycle.\<close>

definition black_ok :: "graph \<Rightarrow> states \<Rightarrow> bool" where
  "black_ok g st =
     (\<forall>b. st b = Some BLACK \<longrightarrow>
        (\<forall>q. (b, q) \<in> parent_rel g \<longrightarrow> st q = Some BLACK) \<and> (b, b) \<notin> (parent_rel g)\<^sup>+)"

lemma black_closed_rtrancl:
  assumes "black_ok g st" and "(a, b) \<in> (parent_rel g)\<^sup>*" and "st a = Some BLACK"
  shows "st b = Some BLACK"
  using assms(2,3,1)
  by (induction rule: rtrancl_induct) (auto simp: black_ok_def)

lemma black_no_cycle:
  assumes "black_ok g st" and "st a = Some BLACK"
  shows "\<not> reaches_cycle g a"
proof
  assume "reaches_cycle g a"
  then obtain b where b: "(a, b) \<in> (parent_rel g)\<^sup>*" "(b, b) \<in> (parent_rel g)\<^sup>+"
    by (auto simp: reaches_cycle_def)
  from black_closed_rtrancl[OF assms(1) b(1) assms(2)] have "st b = Some BLACK" .
  with assms(1) b(2) show False by (auto simp: black_ok_def)
qed

lemma black_ok_gray:
  assumes "black_ok g st" and "st c \<noteq> Some BLACK"
  shows "black_ok g (st(c \<mapsto> GRAY))"
  unfolding black_ok_def
proof (intro allI impI)
  fix b assume b: "(st(c \<mapsto> GRAY)) b = Some BLACK"
  then have bc: "b \<noteq> c" and sb: "st b = Some BLACK" by (auto split: if_splits)
  have "st q = Some BLACK \<and> q \<noteq> c" if "(b, q) \<in> parent_rel g" for q
    using that sb assms by (auto simp: black_ok_def)
  then have "\<forall>q. (b, q) \<in> parent_rel g \<longrightarrow> (st(c \<mapsto> GRAY)) q = Some BLACK" by simp
  moreover have "(b, b) \<notin> (parent_rel g)\<^sup>+" using sb assms(1) by (simp add: black_ok_def)
  ultimately show "(\<forall>q. (b, q) \<in> parent_rel g \<longrightarrow> (st(c \<mapsto> GRAY)) q = Some BLACK)
                   \<and> (b, b) \<notin> (parent_rel g)\<^sup>+" by simp
qed

lemma black_ok_finish:
  assumes ok: "black_ok g st" and gray: "st c = Some GRAY"
    and ps: "\<forall>q. (c, q) \<in> parent_rel g \<longrightarrow> st q = Some BLACK"
  shows "black_ok g (st(c \<mapsto> BLACK))"
  unfolding black_ok_def
proof (intro allI impI)
  fix b assume b: "(st(c \<mapsto> BLACK)) b = Some BLACK"
  show "(\<forall>q. (b, q) \<in> parent_rel g \<longrightarrow> (st(c \<mapsto> BLACK)) q = Some BLACK)
        \<and> (b, b) \<notin> (parent_rel g)\<^sup>+"
  proof (cases "b = c")
    case True
    have "(c, c) \<notin> (parent_rel g)\<^sup>+"
    proof
      assume "(c, c) \<in> (parent_rel g)\<^sup>+"
      then obtain q where q: "(c, q) \<in> parent_rel g" "(q, c) \<in> (parent_rel g)\<^sup>*"
        by (meson tranclD)
      from ps q(1) have "st q = Some BLACK" by simp
      from black_closed_rtrancl[OF ok q(2) this] gray show False by simp
    qed
    with True ps show ?thesis by simp
  next
    case False
    with b have sb: "st b = Some BLACK" by simp
    with ok have "\<forall>q. (b, q) \<in> parent_rel g \<longrightarrow> st q = Some BLACK" "(b, b) \<notin> (parent_rel g)\<^sup>+"
      by (auto simp: black_ok_def)
    then show ?thesis by simp
  qed
qed

lemma dfs_none_black_ok:
  shows "dfs g c st p = (None, st', p') \<Longrightarrow> black_ok g st \<Longrightarrow> st (path c) \<noteq> Some BLACK
           \<Longrightarrow> black_ok g st'"
    and "dfs_parents g ps st p = (None, st', p') \<Longrightarrow> black_ok g st \<Longrightarrow> black_ok g st'"
proof (induction g c st p and g ps st p arbitrary: st' p' and st' p' rule: dfs_dfs_parents.induct)
  case (1 g current states pth)
  let ?st1 = "states(path current \<mapsto> GRAY)"
  obtain r s2 p2 where d: "dfs_parents g (getParents g current) ?st1 (pth @ [current]) = (r, s2, p2)"
    by (cases "dfs_parents g (getParents g current) ?st1 (pth @ [current])") auto
  from "1.prems"(1) dfs_unfold[OF d] have "r = None \<and> st' = s2(path current \<mapsto> BLACK)"
    by (cases r) auto
  then have r: "r = None" and st': "st' = s2(path current \<mapsto> BLACK)" by simp_all
  from d r have d': "dfs_parents g (getParents g current) ?st1 (pth @ [current]) = (None, s2, p2)"
    by simp
  have ok1: "black_ok g ?st1" using "1.prems"(2,3) by (rule black_ok_gray)
  from "1.IH"[OF d' ok1] have ok2: "black_ok g s2" .
  from dfs_none_frame(2)[OF d'] have
    fr: "\<forall>q \<in> set (getParents g current). s2 (path q) = Some BLACK"
        "\<forall>u. \<not> is_white ?st1 u \<longrightarrow> s2 u = ?st1 u"
    by blast+
  from fr(2) have gray: "s2 (path current) = Some GRAY" by (simp add: is_white_def)
  have "\<forall>q. (path current, q) \<in> parent_rel g \<longrightarrow> s2 q = Some BLACK"
    using fr(1) by (auto simp: parent_rel_getParents)
  with ok2 gray show ?case unfolding st' by (rule black_ok_finish)
next
  case (2 g states pth)
  then show ?case by simp
next
  case (3 g parent rest states pth)
  show ?case
  proof (cases "state_of states parent")
    case GRAY
    with "3.prems" show ?thesis by simp
  next
    case BLACK
    with "3.prems" have rec: "dfs_parents g rest states pth = (None, st', p')" by simp
    from "3.IH"(3)[OF BLACK rec "3.prems"(2)] show ?thesis .
  next
    case WHITE
    show ?thesis
    proof (cases rule: dfs_result_cases[of g parent states pth])
      case (Cycle ci s1 p1)
      with WHITE "3.prems" show ?thesis by simp
    next
      case (NoCycle s1 p1)
      with WHITE "3.prems" have rec: "dfs_parents g rest s1 p1 = (None, st', p')" by simp
      from WHITE have "states (path parent) \<noteq> Some BLACK"
        by (auto simp: state_of_def)
      from "3.IH"(1)[OF WHITE NoCycle "3.prems"(2) this] have "black_ok g s1" .
      from "3.IH"(2)[OF WHITE NoCycle[symmetric] refl refl rec this] show ?thesis .
    qed
  qed
qed

lemma dfs_sound:
  shows "dfs g c st p = (Some ci, st', p') \<Longrightarrow>
           (\<forall>u. st u = Some GRAY \<longrightarrow> (u, path c) \<in> (parent_rel g)\<^sup>*) \<Longrightarrow> reaches_cycle g (path c)"
    and "dfs_parents g ps st p = (Some ci, st', p') \<Longrightarrow>
           (\<forall>u. st u = Some GRAY \<longrightarrow> (u, x) \<in> (parent_rel g)\<^sup>*) \<Longrightarrow>
           (\<forall>q \<in> set ps. (x, path q) \<in> parent_rel g) \<Longrightarrow>
           \<exists>q \<in> set ps. reaches_cycle g (path q)"
proof (induction g c st p and g ps st p arbitrary: ci st' p' and ci st' p' x rule: dfs_dfs_parents.induct)
  case (1 g current states pth)
  let ?st1 = "states(path current \<mapsto> GRAY)"
  obtain r s2 p2 where d: "dfs_parents g (getParents g current) ?st1 (pth @ [current]) = (r, s2, p2)"
    by (cases "dfs_parents g (getParents g current) ?st1 (pth @ [current])") auto
  from "1.prems"(1) dfs_unfold[OF d] have r: "r = Some ci"
    by (cases r) auto
  from d r have d': "dfs_parents g (getParents g current) ?st1 (pth @ [current]) = (Some ci, s2, p2)"
    by simp
  have g1: "\<forall>u. ?st1 u = Some GRAY \<longrightarrow> (u, path current) \<in> (parent_rel g)\<^sup>*"
    using "1.prems"(2) by simp
  have e: "\<forall>q \<in> set (getParents g current). (path current, path q) \<in> parent_rel g"
    by (simp add: parent_rel_getParents)
  from "1.IH"[OF d' g1 e] obtain q where
    q: "q \<in> set (getParents g current)" "reaches_cycle g (path q)" by blast
  from e q(1) have "(path current, path q) \<in> parent_rel g" by blast
  then show ?case using q(2) by (rule reaches_cycle_step)
next
  case (2 g states pth)
  then show ?case by simp
next
  case (3 g parent rest states pth)
  have edge: "(x, path parent) \<in> parent_rel g" using "3.prems"(3) by simp
  have rest: "\<forall>q \<in> set rest. (x, path q) \<in> parent_rel g" using "3.prems"(3) by simp
  show ?case
  proof (cases "state_of states parent")
    case GRAY
    then have "states (path parent) = Some GRAY"
      by (auto simp: state_of_def split: option.splits)
    with "3.prems"(2) have "(path parent, x) \<in> (parent_rel g)\<^sup>*" by simp
    with edge have "(path parent, path parent) \<in> (parent_rel g)\<^sup>+" by simp
    then have "reaches_cycle g (path parent)" by (auto simp: reaches_cycle_def)
    then show ?thesis by simp
  next
    case BLACK
    with "3.prems" have rec: "dfs_parents g rest states pth = (Some ci, st', p')" by simp
    from "3.IH"(3)[OF BLACK rec "3.prems"(2) rest] show ?thesis by simp
  next
    case WHITE
    show ?thesis
    proof (cases rule: dfs_result_cases[of g parent states pth])
      case (Cycle ci1 s1 p1)
      have "\<forall>u. states u = Some GRAY \<longrightarrow> (u, path parent) \<in> (parent_rel g)\<^sup>*"
        using "3.prems"(2) edge by (meson rtrancl.rtrancl_into_rtrancl)
      from "3.IH"(1)[OF WHITE Cycle this] show ?thesis by simp
    next
      case (NoCycle s1 p1)
      with WHITE "3.prems" have rec: "dfs_parents g rest s1 p1 = (Some ci, st', p')" by simp
      from dfs_none_frame(1)[OF NoCycle] have "\<forall>u. s1 u = Some GRAY \<longrightarrow> states u = Some GRAY"
        by blast
      with "3.prems"(2) have "\<forall>u. s1 u = Some GRAY \<longrightarrow> (u, x) \<in> (parent_rel g)\<^sup>*" by blast
      from "3.IH"(2)[OF WHITE NoCycle[symmetric] refl refl rec this rest] show ?thesis by simp
    qed
  qed
qed

lemma detectCycle_iff: "detectCycle g f \<noteq> None \<longleftrightarrow> reaches_cycle g (path f)"
proof (cases rule: dfs_result_cases[of g f Map.empty "[]"])
  case (Cycle ci s' p')
  from dfs_sound(1)[OF Cycle] have "reaches_cycle g (path f)" by simp
  with Cycle show ?thesis by (simp add: detectCycle_def)
next
  case (NoCycle s' p')
  have "black_ok g Map.empty" by (simp add: black_ok_def)
  from dfs_none_black_ok(1)[OF NoCycle this] have "black_ok g s'" by simp
  moreover from dfs_none_frame(1)[OF NoCycle] have "s' (path f) = Some BLACK" by blast
  ultimately have "\<not> reaches_cycle g (path f)" by (rule black_no_cycle)
  with NoCycle show ?thesis by (simp add: detectCycle_def)
qed

lemma hasCycles_loop_iff:
  "black_ok g st \<Longrightarrow> (\<forall>u. st u \<noteq> Some GRAY) \<Longrightarrow>
     hasCycles_loop g fs st \<longleftrightarrow> (\<exists>f \<in> set fs. reaches_cycle g (path f))"
proof (induction fs arbitrary: st)
  case Nil
  then show ?case by simp
next
  case (Cons f fs)
  show ?case
  proof (cases "state_of st f = WHITE")
    case False
    with Cons.prems(2) have "st (path f) = Some BLACK"
      by (cases "st (path f)"; cases "the (st (path f))") (auto simp: state_of_def)
    with Cons.prems(1) have "\<not> reaches_cycle g (path f)" by (rule black_no_cycle)
    with False Cons.IH[OF Cons.prems] show ?thesis by simp
  next
    case True
    show ?thesis
    proof (cases rule: dfs_result_cases[of g f st "[]"])
      case (Cycle ci s' p')
      from dfs_sound(1)[OF Cycle] Cons.prems(2) have "reaches_cycle g (path f)" by simp
      with True Cycle show ?thesis by simp
    next
      case (NoCycle s' p')
      from True have "st (path f) \<noteq> Some BLACK" by (auto simp: state_of_def)
      from dfs_none_black_ok(1)[OF NoCycle Cons.prems(1) this] have ok: "black_ok g s'" .
      from dfs_none_frame(1)[OF NoCycle] have b: "s' (path f) = Some BLACK"
        and gr: "\<forall>u. s' u = Some GRAY \<longrightarrow> st u = Some GRAY" by blast+
      from gr Cons.prems(2) have ng: "\<forall>u. s' u \<noteq> Some GRAY" by blast
      from ok b have "\<not> reaches_cycle g (path f)" by (rule black_no_cycle)
      with True NoCycle Cons.IH[OF ok ng] show ?thesis by simp
    qed
  qed
qed

lemma hasCycles_iff: "hasCycles g \<longleftrightarrow> (\<exists>f \<in> set (getAllFiles g). reaches_cycle g (path f))"
  unfolding hasCycles_def by (rule hasCycles_loop_iff) (simp_all add: black_ok_def)


subsection \<open>The reported cycle\<close>

lemma findIndex_found:
  "\<exists>x \<in> set xs. P x \<Longrightarrow>
     0 \<le> findIndex P xs \<and> nat (findIndex P xs) < length xs \<and> P (xs ! nat (findIndex P xs))"
proof (induction xs)
  case Nil
  then show ?case by simp
next
  case (Cons x xs)
  show ?case
  proof (cases "P x")
    case True
    then show ?thesis by simp
  next
    case False
    with Cons.prems have "\<exists>x \<in> set xs. P x" by simp
    from Cons.IH[OF this] False show ?thesis
      by (simp add: Let_def nat_add_distrib)
  qed
qed

text \<open>The shape of a reported cycle: it closes on the document it starts from, and
  its length is the number of its edges.\<close>

definition cycle_shape :: "CycleInfo \<Rightarrow> bool" where
  "cycle_shape ci =
     (2 \<le> length (cyclePath ci)
      \<and> path (hd (cyclePath ci)) = path (last (cyclePath ci))
      \<and> length_ci ci = int (length (cyclePath ci)) - 1)"

lemma buildCycleInfo_shape:
  assumes "path q \<in> path ` set pth"
  shows "cycle_shape (buildCycleInfo q pth)"
proof -
  let ?i = "findIndex (\<lambda>f. path f = path q) pth"
  from assms have "\<exists>x \<in> set pth. path x = path q" by force
  from findIndex_found[of pth "\<lambda>f. path f = path q", OF this]
  have i: "0 \<le> ?i" "nat ?i < length pth" "path (pth ! nat ?i) = path q" by simp_all
  from i(1,2) have "?i \<le> int (length pth)" by linarith
  with i(1) have sl: "slice pth ?i = drop (nat ?i) pth"
    by (simp add: slice_def Let_def min_def)
  from i(2) have ne: "drop (nat ?i) pth \<noteq> []" by simp
  have "hd (drop (nat ?i) pth) = pth ! nat ?i" using i(2) by (simp add: hd_drop_conv_nth)
  with i(3) ne sl show ?thesis
    by (cases "drop (nat ?i) pth") (simp_all add: cycle_shape_def buildCycleInfo_def Let_def)
qed

lemma dfs_cycle_shape:
  shows "dfs g c st p = (Some ci, st', p') \<Longrightarrow>
           (\<forall>u. st u = Some GRAY \<longrightarrow> u \<in> path ` set p) \<Longrightarrow> cycle_shape ci"
    and "dfs_parents g ps st p = (Some ci, st', p') \<Longrightarrow>
           (\<forall>u. st u = Some GRAY \<longrightarrow> u \<in> path ` set p) \<Longrightarrow> cycle_shape ci"
proof (induction g c st p and g ps st p arbitrary: ci st' p' and ci st' p' rule: dfs_dfs_parents.induct)
  case (1 g current states pth)
  let ?st1 = "states(path current \<mapsto> GRAY)"
  obtain r s2 p2 where d: "dfs_parents g (getParents g current) ?st1 (pth @ [current]) = (r, s2, p2)"
    by (cases "dfs_parents g (getParents g current) ?st1 (pth @ [current])") auto
  from "1.prems"(1) dfs_unfold[OF d] have r: "r = Some ci"
    by (cases r) auto
  from d r have d': "dfs_parents g (getParents g current) ?st1 (pth @ [current]) = (Some ci, s2, p2)"
    by simp
  have "\<forall>u. ?st1 u = Some GRAY \<longrightarrow> u \<in> path ` set (pth @ [current])"
    using "1.prems"(2) by auto
  from "1.IH"[OF d' this] show ?case .
next
  case (2 g states pth)
  then show ?case by simp
next
  case (3 g parent rest states pth)
  show ?case
  proof (cases "state_of states parent")
    case GRAY
    then have "states (path parent) = Some GRAY"
      by (auto simp: state_of_def split: option.splits)
    with "3.prems"(2) have "path parent \<in> path ` set pth" by simp
    then have "cycle_shape (buildCycleInfo parent pth)" by (rule buildCycleInfo_shape)
    with GRAY "3.prems"(1) show ?thesis by auto
  next
    case BLACK
    with "3.prems" have rec: "dfs_parents g rest states pth = (Some ci, st', p')" by simp
    from "3.IH"(3)[OF BLACK rec "3.prems"(2)] show ?thesis .
  next
    case WHITE
    show ?thesis
    proof (cases rule: dfs_result_cases[of g parent states pth])
      case (Cycle ci1 s1 p1)
      with WHITE "3.prems"(1) have "ci1 = ci" by simp
      with "3.IH"(1)[OF WHITE Cycle "3.prems"(2)] show ?thesis by simp
    next
      case (NoCycle s1 p1)
      with WHITE "3.prems" have rec: "dfs_parents g rest s1 p1 = (Some ci, st', p')" by simp
      from dfs_none_frame(1)[OF NoCycle] have "p1 = pth" "\<forall>u. s1 u = Some GRAY \<longrightarrow> states u = Some GRAY"
        by blast+
      with "3.prems"(2) have "\<forall>u. s1 u = Some GRAY \<longrightarrow> u \<in> path ` set p1" by blast
      from "3.IH"(2)[OF WHITE NoCycle[symmetric] refl refl rec this] show ?thesis .
    qed
  qed
qed

lemma detectCycle_shape: "detectCycle g f = Some ci \<Longrightarrow> cycle_shape ci"
proof (cases rule: dfs_result_cases[of g f Map.empty "[]"])
  case (Cycle ci1 s' p')
  assume "detectCycle g f = Some ci"
  with Cycle have "ci1 = ci" by (simp add: detectCycle_def)
  with dfs_cycle_shape(1)[OF Cycle] show ?thesis by simp
next
  case (NoCycle s' p')
  assume "detectCycle g f = Some ci"
  with NoCycle show ?thesis by (simp add: detectCycle_def)
qed

lemma dfs_parents_append:
  "dfs_parents g pre st p = (None, st', p') \<Longrightarrow>
     dfs_parents g (pre @ rest) st p = dfs_parents g rest st' p'"
proof (induction pre arbitrary: st p)
  case Nil
  then show ?case by simp
next
  case (Cons q pre)
  show ?case
  proof (cases "state_of st q")
    case GRAY
    with Cons.prems show ?thesis by simp
  next
    case BLACK
    with Cons.prems Cons.IH[of st p] show ?thesis by simp
  next
    case WHITE
    show ?thesis
    proof (cases rule: dfs_result_cases[of g q st p])
      case (Cycle ci s1 p1)
      with WHITE Cons.prems show ?thesis by simp
    next
      case (NoCycle s1 p1)
      with WHITE Cons.prems Cons.IH[of s1 p1] show ?thesis by simp
    qed
  qed
qed

lemma dfs_parents_no_cycle_none:
  assumes "\<forall>u. st u = Some GRAY \<longrightarrow> (u, x) \<in> (parent_rel g)\<^sup>*"
    and "\<forall>q \<in> set ps. (x, path q) \<in> parent_rel g"
    and "\<forall>q \<in> set ps. \<not> reaches_cycle g (path q)"
  shows "\<exists>st'. dfs_parents g ps st p = (None, st', p)"
proof (cases "fst (dfs_parents g ps st p)")
  case None
  then obtain st' p' where r: "dfs_parents g ps st p = (None, st', p')"
    by (cases "dfs_parents g ps st p") auto
  from dfs_none_frame(2)[OF r] have "p' = p" by blast
  with r show ?thesis by simp
next
  case (Some ci)
  then obtain st' p' where "dfs_parents g ps st p = (Some ci, st', p')"
    by (cases "dfs_parents g ps st p") auto
  from dfs_sound(2)[OF this assms(1,2)] assms(3) show ?thesis by blast
qed

lemma detectCycle_self_parent:
  assumes ps: "getParents g doc = pre @ p # rest" and self: "path p = path doc"
    and pre: "\<forall>q \<in> set pre. detectCycle g q = None"
  shows "detectCycle g doc = Some (buildCycleInfo p [doc])"
proof -
  let ?st1 = "Map.empty(path doc \<mapsto> GRAY)"
  have e: "\<forall>q \<in> set pre. (path doc, path q) \<in> parent_rel g"
    using ps by (auto simp: parent_rel_getParents)
  have n: "\<forall>q \<in> set pre. \<not> reaches_cycle g (path q)"
    using pre detectCycle_iff by blast
  have "\<forall>u. ?st1 u = Some GRAY \<longrightarrow> (u, path doc) \<in> (parent_rel g)\<^sup>*" by simp
  from dfs_parents_no_cycle_none[OF this e n, of "[doc]"] obtain st2 where
    r: "dfs_parents g pre ?st1 [doc] = (None, st2, [doc])" by blast
  from dfs_none_frame(2)[OF r] have "\<forall>u. \<not> is_white ?st1 u \<longrightarrow> st2 u = ?st1 u" by blast
  then have "st2 (path doc) = Some GRAY" by (simp add: is_white_def)
  with self have gy: "state_of st2 p = GRAY" by (simp add: state_of_def)
  have "dfs_parents g (getParents g doc) ?st1 ([] @ [doc]) = dfs_parents g (p # rest) st2 [doc]"
    using dfs_parents_append[OF r] ps by simp
  also have "\<dots> = (Some (buildCycleInfo p [doc]), st2, [doc])" using gy by simp
  finally show ?thesis by (simp add: detectCycle_def dfs.simps)
qed

lemma buildCycleInfo_self:
  "path p = path doc \<Longrightarrow>
     cyclePath (buildCycleInfo p [doc]) = [doc, p] \<and> length_ci (buildCycleInfo p [doc]) = 1"
  by (simp add: buildCycleInfo_def slice_def Let_def)


subsection \<open>Self-loops\<close>

text \<open>A lists the parents B and A, and B has parent A.\<close>

definition graph_self_later :: graph where
  "graph_self_later =
     [(''A.md'', \<lparr>file' = docA, parents = [docB, docA], children = [docA, docB]\<rparr>),
      (''B.md'', \<lparr>file' = docB, parents = [docA], children = [docA]\<rparr>)]"

text \<open>A lists the parents B and A, and B has no parent.\<close>

definition graph_self_second :: graph where
  "graph_self_second =
     [(''A.md'', \<lparr>file' = docA, parents = [docB, docA], children = [docA]\<rparr>),
      (''B.md'', \<lparr>file' = docB, parents = [], children = [docA]\<rparr>)]"

lemmas dfs_eval = detectCycle_def dfs.simps getParents_def state_of_def buildCycleInfo_def
  slice_def doc_defs

text \<open>
  C8 (amended). For a document that is its own parent, \<open>detectCycle\<close> returns a cycle. Its
  path is the document twice and its length is 1 when no parent listed before the
  self-reference leads to a cycle, in particular when the document is its first or only
  parent; otherwise the cycle found through the earlier parent is returned. Every reported
  cycle closes on the document it starts from, and its length is its path length minus one.
\<close>

theorem detectCycle_self_parent_cycle:
  "(path doc \<in> path ` set (getParents g doc) \<longrightarrow> detectCycle g doc \<noteq> None)
   \<and> (getParents g doc = pre @ p # rest \<and> path p = path doc
        \<and> (\<forall>q \<in> set pre. detectCycle g q = None)
      \<longrightarrow> (\<exists>ci. detectCycle g doc = Some ci \<and> cyclePath ci = [doc, p] \<and> length_ci ci = 1))
   \<and> (detectCycle g f = Some ci'
      \<longrightarrow> 2 \<le> length (cyclePath ci')
          \<and> path (hd (cyclePath ci')) = path (last (cyclePath ci'))
          \<and> length_ci ci' = int (length (cyclePath ci')) - 1)"
proof (intro conjI impI)
  assume "path doc \<in> path ` set (getParents g doc)"
  then have "(path doc, path doc) \<in> parent_rel g" by (simp add: parent_rel_getParents)
  then have "reaches_cycle g (path doc)" by (auto simp: reaches_cycle_def)
  then show "detectCycle g doc \<noteq> None" using detectCycle_iff[of g doc] by blast
next
  assume "getParents g doc = pre @ p # rest \<and> path p = path doc
          \<and> (\<forall>q \<in> set pre. detectCycle g q = None)"
  then have "detectCycle g doc = Some (buildCycleInfo p [doc])" and "path p = path doc"
    by (simp_all add: detectCycle_self_parent)
  then show "\<exists>ci. detectCycle g doc = Some ci \<and> cyclePath ci = [doc, p] \<and> length_ci ci = 1"
    by (simp add: buildCycleInfo_self)
next
  assume a: "detectCycle g f = Some ci'"
  from detectCycle_shape[OF a]
  show "2 \<le> length (cyclePath ci')" "path (hd (cyclePath ci')) = path (last (cyclePath ci'))"
    "length_ci ci' = int (length (cyclePath ci')) - 1"
    by (simp_all add: cycle_shape_def)
qed

theorem detectCycle_self_parent_cycle_witness:
  "path docA \<in> path ` set (getParents graph_self_second docA)
   \<and> getParents graph_self_second docA = [docB] @ docA # []
   \<and> detectCycle graph_self_second docB = None
   \<and> detectCycle graph_self_second docA \<noteq> None
   \<and> (\<exists>ci. detectCycle graph_self_second docA = Some ci \<and> cyclePath ci = [docA, docA]
            \<and> length_ci ci = 1 \<and> path (hd (cyclePath ci)) = path (last (cyclePath ci)))"
proof -
  have h1: "path docA \<in> path ` set (getParents graph_self_second docA)"
    by (simp add: graph_self_second_def getParents_def doc_defs)
  have h2: "getParents graph_self_second docA = [docB] @ docA # []"
    by (simp add: graph_self_second_def getParents_def doc_defs)
  have h3: "detectCycle graph_self_second docB = None"
    by (simp add: dfs_eval graph_self_second_def)
  note t = detectCycle_self_parent_cycle[of docA graph_self_second "[docB]" docA "[]" docA]
  from t h1 have c1: "detectCycle graph_self_second docA \<noteq> None" by blast
  from t h2 h3 obtain ci where ci: "detectCycle graph_self_second docA = Some ci"
    "cyclePath ci = [docA, docA]" "length_ci ci = 1" by auto
  from t[of ci] ci(1) have "path (hd (cyclePath ci)) = path (last (cyclePath ci))" by blast
  with h1 h2 h3 c1 ci show ?thesis by blast
qed

text \<open>C8 as stated fails when an earlier parent closes a longer cycle first: the detector
  returns the first cycle in the iteration order of the parents.\<close>

theorem detectCycle_self_parent_counterexample:
  "docA \<in> set (getParents graph_self_later docA)
   \<and> map_option cyclePath (detectCycle graph_self_later docA) = Some [docA, docB, docA]
   \<and> map_option length_ci (detectCycle graph_self_later docA) = Some 2"
  by (simp add: dfs_eval graph_self_later_def)

subsection \<open>hasCycles\<close>

text \<open>
  C5. \<open>hasCycles\<close> is true exactly when \<open>detectCycle\<close> is not null for some document of the
  graph. For a graph whose parent edges form no cycle it is false, and it is false for the
  empty graph.
\<close>

theorem hasCycles_iff_detectCycle:
  "(hasCycles g \<longleftrightarrow> (\<exists>f \<in> set (getAllFiles g). detectCycle g f \<noteq> None))
   \<and> (acyclic (parent_rel g) \<longrightarrow> \<not> hasCycles g)
   \<and> \<not> hasCycles []"
proof (intro conjI impI)
  show iff: "hasCycles g \<longleftrightarrow> (\<exists>f \<in> set (getAllFiles g). detectCycle g f \<noteq> None)"
    by (simp only: hasCycles_iff detectCycle_iff)
  show "\<not> hasCycles []" by (simp add: hasCycles_def getAllFiles_def)
  assume "acyclic (parent_rel g)"
  then have "\<not> reaches_cycle g a" for a by (auto simp: reaches_cycle_def acyclic_def)
  then show "\<not> hasCycles g" by (simp add: hasCycles_iff)
qed

lemma parent_rel_graph_edge: "parent_rel graph_edge = {(''A.md'', ''B.md'')}"
  by (auto simp: parent_rel_def graph_edge_def doc_defs split: if_splits)

theorem hasCycles_iff_detectCycle_witness:
  "acyclic (parent_rel graph_edge) \<and> \<not> hasCycles graph_edge
   \<and> detectCycle graph_edge docA = None \<and> detectCycle graph_edge docB = None
   \<and> detectCycle graph_self docA \<noteq> None \<and> hasCycles graph_self"
proof -
  have "acyclic ({} :: (string \<times> string) set)" by (simp add: acyclic_def)
  then have h: "acyclic (parent_rel graph_edge)"
    by (simp add: parent_rel_graph_edge)
  from hasCycles_iff_detectCycle[of graph_edge] h have n: "\<not> hasCycles graph_edge" by blast
  with hasCycles_iff_detectCycle[of graph_edge]
  have "detectCycle graph_edge docA = None \<and> detectCycle graph_edge docB = None"
    by (simp add: getAllFiles_def graph_edge_def)
  moreover have d: "detectCycle graph_self docA \<noteq> None"
    by (simp add: dfs_eval graph_self_def)
  moreover have "hasCycles graph_self"
    using hasCycles_iff_detectCycle[of graph_self] d by (simp add: getAllFiles_def graph_self_def)
  ultimately show ?thesis using h n by blast
qed

section \<open>The shortest path\<close>

text \<open>The undirected view: from a document, a step goes to one of the parents or one of the
  children that the graph lists for it. A route is a sequence of such steps, and it
  connects \<open>s\<close> to \<open>e\<close> when it starts with \<open>s\<close> and ends on the path of \<open>e\<close>.\<close>

definition neighbors :: "graph \<Rightarrow> TFile \<Rightarrow> TFile list" where
  "neighbors g f = getParents g f @ getChildren g f"

fun is_route :: "graph \<Rightarrow> TFile list \<Rightarrow> bool" where
  "is_route g [] = False"
| "is_route g [x] = True"
| "is_route g (x # y # r) = (y \<in> set (neighbors g x) \<and> is_route g (y # r))"

definition connects :: "graph \<Rightarrow> TFile \<Rightarrow> TFile \<Rightarrow> TFile list \<Rightarrow> bool" where
  "connects g s e w = (is_route g w \<and> hd w = s \<and> path (last w) = path e)"

definition nbr_rel :: "graph \<Rightarrow> (string \<times> string) set" where
  "nbr_rel g =
     {(a, b). b \<in> path ` set (case map_of g a of None \<Rightarrow> [] | Some n \<Rightarrow> parents n @ children n)}"

lemma nbr_rel_neighbors: "(path f, b) \<in> nbr_rel g \<longleftrightarrow> b \<in> path ` set (neighbors g f)"
  by (auto simp: nbr_rel_def neighbors_def getParents_def getChildren_def split: option.splits)

lemma is_route_snoc:
  "is_route g p \<Longrightarrow> m \<in> set (neighbors g (last p)) \<Longrightarrow> is_route g (p @ [m])"
  by (induction g p rule: is_route.induct) auto

lemma is_route_relpow:
  "is_route g w \<Longrightarrow> (path (hd w), path (last w)) \<in> nbr_rel g ^^ (length w - 1)"
proof (induction g w rule: is_route.induct)
  case (1 g)
  then show ?case by simp
next
  case (2 g x)
  then show ?case by simp
next
  case (3 g x y r)
  then have "(path x, path y) \<in> nbr_rel g" and "(path y, path (last (y # r))) \<in> nbr_rel g ^^ length r"
    by (auto simp: nbr_rel_neighbors)
  then have "(path x, path (last (y # r))) \<in> nbr_rel g ^^ Suc (length r)"
    by (meson relpow_Suc_I2)
  then show ?case by simp
qed

lemma scan_neighbors_Return:
  "scan_neighbors e p ns (q, V) = Return fp \<Longrightarrow> \<exists>m \<in> set ns. path m = path e \<and> fp = p @ [m]"
  by (induction ns arbitrary: q V) (auto split: if_splits)

lemma scan_neighbors_Next:
  "scan_neighbors e p ns (q, V) = Next (q', V') \<Longrightarrow>
     (\<forall>m \<in> set ns. path m \<noteq> path e) \<and> path ` set ns \<subseteq> V'
     \<and> (\<exists>new. q' = q @ map (\<lambda>m. (m, p @ [m])) new \<and> V' = V \<union> path ` set new
               \<and> set new \<subseteq> set ns \<and> path ` set new \<inter> V = {})"
proof (induction ns arbitrary: q V)
  case Nil
  then show ?case by simp
next
  case (Cons m ns)
  from Cons.prems have ne: "path m \<noteq> path e" by (auto split: if_splits)
  show ?case
  proof (cases "path m \<in> V")
    case True
    with Cons.prems ne have "scan_neighbors e p ns (q, V) = Next (q', V')" by simp
    from Cons.IH[OF this] obtain new where
      n: "\<forall>m \<in> set ns. path m \<noteq> path e" "path ` set ns \<subseteq> V'"
         "q' = q @ map (\<lambda>m. (m, p @ [m])) new" "V' = V \<union> path ` set new"
         "set new \<subseteq> set ns" "path ` set new \<inter> V = {}" by blast
    show ?thesis
    proof (intro conjI exI[of _ new])
      show "\<forall>m \<in> set (m # ns). path m \<noteq> path e" using n(1) ne by simp
      show "path ` set (m # ns) \<subseteq> V'" using n(2,4) True by auto
      show "q' = q @ map (\<lambda>m. (m, p @ [m])) new" by (rule n(3))
      show "V' = V \<union> path ` set new" by (rule n(4))
      show "set new \<subseteq> set (m # ns)" using n(5) by auto
      show "path ` set new \<inter> V = {}" by (rule n(6))
    qed
  next
    case False
    with Cons.prems ne
    have "scan_neighbors e p ns (q @ [(m, p @ [m])], insert (path m) V) = Next (q', V')" by simp
    from Cons.IH[OF this] obtain new where
      n: "\<forall>m \<in> set ns. path m \<noteq> path e" "path ` set ns \<subseteq> V'"
         "q' = (q @ [(m, p @ [m])]) @ map (\<lambda>m. (m, p @ [m])) new"
         "V' = insert (path m) V \<union> path ` set new"
         "set new \<subseteq> set ns" "path ` set new \<inter> insert (path m) V = {}" by blast
    show ?thesis
    proof (intro conjI exI[of _ "m # new"])
      show "\<forall>m \<in> set (m # ns). path m \<noteq> path e" using n(1) ne by simp
      show "path ` set (m # ns) \<subseteq> V'" using n(2,4) by auto
      show "q' = q @ map (\<lambda>m. (m, p @ [m])) (m # new)" using n(3) by simp
      show "V' = V \<union> path ` set (m # new)" using n(4) by auto
      show "set (m # new) \<subseteq> set (m # ns)" using n(5) by auto
      show "path ` set (m # new) \<inter> V = {}" using n(6) False by auto
    qed
  qed
qed


text \<open>In a graph made by \<open>build\<close>, the neighbours of a document that has a node are the
  ends of its parent edges, taken in both directions: there the listed neighbours are the
  undirected view of the parent edges. A document without a node has no neighbour.\<close>

lemma build_node:
  assumes "map_of (build app pf) k = Some node"
  shows "\<exists>n. map_of (build_nodes app pf) k = Some n \<and> parents node = parents n
             \<and> children node = inverse_index (map snd (build_nodes app pf)) k"
proof -
  let ?g1 = "build_nodes app pf"
  from build_nodes_inv[of app pf] have c: "\<forall>kv \<in> set ?g1. children (snd kv) = []" by auto
  from assms obtain n where n: "map_of ?g1 k = Some n"
    "node = n\<lparr>children := children n @ inverse_index (map snd ?g1) k\<rparr>"
    by (auto simp: build_eq map_of_add_children)
  from n(1) have "(k, n) \<in> set ?g1" by (rule map_of_SomeD)
  with c have "children n = []" by force
  with n show ?thesis by simp
qed

lemma build_child_paths:
  assumes "map_of (build app pf) a = Some an"
  shows "b \<in> path ` set (children an) \<longleftrightarrow> (b, a) \<in> parent_rel (build app pf)"
proof -
  let ?g1 = "build_nodes app pf"
  from build_nodes_inv[of app pf] have
    d: "distinct (map fst ?g1)" and f: "\<forall>kv \<in> set ?g1. path (file' (snd kv)) = fst kv" by auto
  from build_node[OF assms] have ch: "children an = inverse_index (map snd ?g1) a" by blast
  have "b \<in> path ` set (children an) \<longleftrightarrow> count_list (map path (children an)) b \<noteq> 0"
    by (simp add: count_list_0_iff)
  also have "\<dots> \<longleftrightarrow> (case map_of ?g1 b of None \<Rightarrow> False | Some bn \<Rightarrow> a \<in> path ` set (parents bn))"
    unfolding ch count_inverse_index[OF d f, of a b]
    by (cases "map_of ?g1 b") (simp_all add: count_list_0_iff)
  also have "\<dots> \<longleftrightarrow> (b, a) \<in> parent_rel (build app pf)"
    by (cases "map_of ?g1 b") (simp_all add: parent_rel_def build_eq map_of_add_children)
  finally show ?thesis .
qed

lemma build_neighbors_undirected:
  assumes "map_of (build app pf) a = Some an"
  shows "(a, b) \<in> nbr_rel (build app pf)
         \<longleftrightarrow> (a, b) \<in> parent_rel (build app pf) \<or> (b, a) \<in> parent_rel (build app pf)"
  using assms build_child_paths[OF assms, of b]
  by (auto simp: nbr_rel_def parent_rel_def)


lemma absent_no_neighbor: "map_of g a = None \<Longrightarrow> (a, b) \<notin> nbr_rel g"
  by (simp add: nbr_rel_def)

text \<open>The invariant of the queue: every entry carries a route from the start to its node,
  no shorter route reaches that node, the entries are in the order of their lengths, which
  differ by at most one, every visited document that is not queued has all its neighbours
  visited, and every document nearer to the start than the head of the queue is visited.\<close>

definition queue_nodes :: "(TFile \<times> TFile list) list \<Rightarrow> string set" where
  "queue_nodes q = path ` fst ` set q"

definition bfs_inv ::
  "graph \<Rightarrow> TFile \<Rightarrow> TFile \<Rightarrow> (TFile \<times> TFile list) list \<Rightarrow> string set \<Rightarrow> bool" where
  "bfs_inv g s e q V =
     (path s \<in> V \<and> path e \<notin> V
      \<and> (\<forall>x \<in> set q. is_route g (snd x) \<and> hd (snd x) = s \<and> last (snd x) = fst x
            \<and> path (fst x) \<in> V
            \<and> (\<forall>k. k + 1 < length (snd x) \<longrightarrow> (path s, path (fst x)) \<notin> nbr_rel g ^^ k))
      \<and> (\<forall>a \<in> V. a \<notin> queue_nodes q \<longrightarrow> (\<forall>b. (a, b) \<in> nbr_rel g \<longrightarrow> b \<in> V))
      \<and> sorted (map (\<lambda>x. length (snd x)) q)
      \<and> (\<forall>x \<in> set q. \<forall>y \<in> set q. length (snd y) \<le> length (snd x) + 1)
      \<and> (\<forall>x \<in> set q. \<forall>k b. k + 1 < length (snd (hd q)) \<longrightarrow> (path s, b) \<in> nbr_rel g ^^ k \<longrightarrow> b \<in> V))"

lemma queue_nodes_Cons [simp]: "queue_nodes ((n, p) # q) = insert (path n) (queue_nodes q)"
  by (simp add: queue_nodes_def)

lemma queue_nodes_append [simp]: "queue_nodes (q1 @ q2) = queue_nodes q1 \<union> queue_nodes q2"
  by (simp add: queue_nodes_def image_Un)

lemma queue_nodes_new [simp]: "queue_nodes (map (\<lambda>m. (m, f m)) new) = path ` set new"
  by (simp add: queue_nodes_def image_image)

lemma queue_nodes_mem: "a \<in> queue_nodes q \<longleftrightarrow> (\<exists>x \<in> set q. a = path (fst x))"
  by (auto simp: queue_nodes_def)

lemma sorted_hd_min: "sorted xs \<Longrightarrow> x \<in> set xs \<Longrightarrow> hd xs \<le> (x::nat)"
  by (cases xs) auto

lemma bfs_inv_not_queued:
  assumes inv: "bfs_inv g s e q V" and x: "x \<in> set q"
    and k: "k + 1 < length (snd (hd q))" and r: "(path s, b) \<in> nbr_rel g ^^ k"
  shows "b \<noteq> path (fst x)"
proof
  assume b: "b = path (fst x)"
  from inv have srt: "sorted (map (\<lambda>x. length (snd x)) q)" by (simp add: bfs_inv_def)
  from x have ne: "q \<noteq> []" by auto
  from x have "length (snd x) \<in> set (map (\<lambda>x. length (snd x)) q)" by auto
  from sorted_hd_min[OF srt this] ne have "length (snd (hd q)) \<le> length (snd x)"
    by (simp add: hd_map)
  with k have "k + 1 < length (snd x)" by simp
  with inv x have "(path s, path (fst x)) \<notin> nbr_rel g ^^ k" by (auto simp: bfs_inv_def)
  with r b show False by simp
qed

lemma bfs_inv_reach:
  assumes inv: "bfs_inv g s e ((n, p) # rest) V"
    and r: "(path s, b) \<in> nbr_rel g ^^ k" and k: "k < length p"
  shows "b \<in> V"
proof (cases k)
  case 0
  with r inv show ?thesis by (simp add: bfs_inv_def)
next
  case (Suc k')
  with r obtain a where a: "(path s, a) \<in> nbr_rel g ^^ k'" "(a, b) \<in> nbr_rel g" by auto
  from Suc k have k': "k' + 1 < length (snd (hd ((n, p) # rest)))" by simp
  from inv k' a(1) have "a \<in> V" by (auto simp: bfs_inv_def)
  moreover have "a \<notin> queue_nodes ((n, p) # rest)"
  proof
    assume "a \<in> queue_nodes ((n, p) # rest)"
    then obtain x where x: "x \<in> set ((n, p) # rest)" "a = path (fst x)"
      unfolding queue_nodes_mem by blast
    from bfs_inv_not_queued[OF inv x(1) k' a(1)] x(2) show False by simp
  qed
  ultimately show ?thesis using inv a(2) by (auto simp: bfs_inv_def)
qed

lemma bfs_inv_step:
  assumes inv: "bfs_inv g s e ((n, p) # rest) V"
    and sub: "set new \<subseteq> set (neighbors g n)"
    and fresh: "path ` set new \<inter> V = {}"
    and cover: "path ` set (neighbors g n) \<subseteq> V \<union> path ` set new"
    and noend: "\<forall>m \<in> set (neighbors g n). path m \<noteq> path e"
  shows "bfs_inv g s e (rest @ map (\<lambda>m. (m, p @ [m])) new) (V \<union> path ` set new)"
proof -
  let ?newq = "map (\<lambda>m. (m, p @ [m])) new"
  let ?q' = "rest @ ?newq"
  let ?V' = "V \<union> path ` set new"
  let ?L = "length p"
  from inv have sV: "path s \<in> V" and eV: "path e \<notin> V" by (simp_all add: bfs_inv_def)
  from inv have hp: "is_route g p" "hd p = s" "last p = n" by (simp_all add: bfs_inv_def)
  from hp(1) have pne: "p \<noteq> []" by auto
  from inv have old: "\<And>x. x \<in> set rest \<Longrightarrow> is_route g (snd x) \<and> hd (snd x) = s \<and> last (snd x) = fst x
            \<and> path (fst x) \<in> V
            \<and> (\<forall>k. k + 1 < length (snd x) \<longrightarrow> (path s, path (fst x)) \<notin> nbr_rel g ^^ k)"
    by (simp add: bfs_inv_def)
  from inv have closed: "\<And>a b. a \<in> V \<Longrightarrow> a \<notin> queue_nodes ((n, p) # rest) \<Longrightarrow> (a, b) \<in> nbr_rel g \<Longrightarrow> b \<in> V"
    unfolding bfs_inv_def by blast
  from inv have srt: "sorted (map (\<lambda>x. length (snd x)) ((n, p) # rest))" by (simp add: bfs_inv_def)
  then have srt_rest: "sorted (map (\<lambda>x. length (snd x)) rest)"
    and lo: "\<And>x. x \<in> set rest \<Longrightarrow> ?L \<le> length (snd x)" by auto
  from inv have hi: "\<And>x. x \<in> set rest \<Longrightarrow> length (snd x) \<le> ?L + 1"
    by (auto simp: bfs_inv_def)
  have newlen: "\<And>x. x \<in> set ?newq \<Longrightarrow> length (snd x) = ?L + 1" by auto
  have range: "\<And>x. x \<in> set ?q' \<Longrightarrow> ?L \<le> length (snd x) \<and> length (snd x) \<le> ?L + 1"
    using lo hi newlen by fastforce
  have c1: "path s \<in> ?V'" using sV by simp
  have c2: "path e \<notin> ?V'"
  proof
    assume "path e \<in> ?V'"
    with eV obtain m where m: "m \<in> set new" "path m = path e" by auto
    with sub noend show False by auto
  qed
  have c3: "is_route g (snd x) \<and> hd (snd x) = s \<and> last (snd x) = fst x \<and> path (fst x) \<in> ?V'
            \<and> (\<forall>k. k + 1 < length (snd x) \<longrightarrow> (path s, path (fst x)) \<notin> nbr_rel g ^^ k)"
    if x: "x \<in> set ?q'" for x
  proof (cases "x \<in> set rest")
    case True
    from old[OF True] show ?thesis by simp
  next
    case False
    with x obtain m where m: "m \<in> set new" "x = (m, p @ [m])" by auto
    from m(1) sub hp(3) have "m \<in> set (neighbors g (last p))" by auto
    with hp(1) have r: "is_route g (p @ [m])" by (rule is_route_snoc)
    have far: "(path s, path m) \<notin> nbr_rel g ^^ k" if "k + 1 < length (p @ [m])" for k
    proof
      assume "(path s, path m) \<in> nbr_rel g ^^ k"
      moreover from that have "k < length p" by simp
      ultimately have "path m \<in> V" using inv by (rule bfs_inv_reach[rotated])
      with m(1) fresh show False by auto
    qed
    from r far m hp(2) pne show ?thesis by simp
  qed
  have c4: "b \<in> ?V'" if a: "a \<in> ?V'" "a \<notin> queue_nodes ?q'" and ab: "(a, b) \<in> nbr_rel g" for a b
  proof -
    from a(2) have nn: "a \<notin> path ` set new" and nr: "a \<notin> queue_nodes rest"
      by simp_all
    with a(1) have aV: "a \<in> V" by simp
    show ?thesis
    proof (cases "a = path n")
      case True
      with ab have "b \<in> path ` set (neighbors g n)" by (simp add: nbr_rel_neighbors)
      with cover show ?thesis by auto
    next
      case False
      with nr have "a \<notin> queue_nodes ((n, p) # rest)" by simp
      from closed[OF aV this ab] show ?thesis by simp
    qed
  qed
  have "map (\<lambda>x. length (snd x)) ?newq = replicate (length new) (?L + 1)"
    by (induction new) auto
  then have "sorted (map (\<lambda>x. length (snd x)) ?newq)" by (simp add: sorted_replicate)
  with srt_rest hi newlen have c5: "sorted (map (\<lambda>x. length (snd x)) ?q')"
    by (auto simp: sorted_append)
  have c6: "length (snd y) \<le> length (snd x) + 1" if "x \<in> set ?q'" "y \<in> set ?q'" for x y
    using range[OF that(1)] range[OF that(2)] by simp
  have c7: "b \<in> ?V'" if x: "x \<in> set ?q'" and k: "k + 1 < length (snd (hd ?q'))"
    and r: "(path s, b) \<in> nbr_rel g ^^ k" for x k b
  proof -
    from x have "?q' \<noteq> []" by auto
    then have "hd ?q' \<in> set ?q'" by (rule hd_in_set)
    from range[OF this] k have "k < length p" by simp
    from bfs_inv_reach[OF inv r this] show ?thesis by simp
  qed
  show ?thesis
    unfolding bfs_inv_def
  proof (intro conjI ballI allI impI)
    show "path s \<in> ?V'" by (rule c1)
    show "path e \<notin> ?V'" by (rule c2)
    show "is_route g (snd x)" if "x \<in> set ?q'" for x using c3[OF that] by simp
    show "hd (snd x) = s" if "x \<in> set ?q'" for x using c3[OF that] by simp
    show "last (snd x) = fst x" if "x \<in> set ?q'" for x using c3[OF that] by simp
    show "path (fst x) \<in> ?V'" if "x \<in> set ?q'" for x using c3[OF that] by simp
    show "(path s, path (fst x)) \<notin> nbr_rel g ^^ k" if "x \<in> set ?q'" "k + 1 < length (snd x)" for x k
      using c3[OF that(1)] that(2) by simp
    show "b \<in> ?V'" if "a \<in> ?V'" "a \<notin> queue_nodes ?q'" "(a, b) \<in> nbr_rel g" for a b
      using that by (rule c4)
    show "sorted (map (\<lambda>x. length (snd x)) ?q')" by (rule c5)
    show "length (snd y) \<le> length (snd x) + 1" if "x \<in> set ?q'" "y \<in> set ?q'" for x y
      using that by (rule c6)
    show "b \<in> ?V'" if "x \<in> set ?q'" "k + 1 < length (snd (hd ?q'))" "(path s, b) \<in> nbr_rel g ^^ k" for x k b
      using that by (rule c7)
  qed
qed


definition shortest_route :: "graph \<Rightarrow> TFile \<Rightarrow> TFile \<Rightarrow> NotePath \<Rightarrow> bool" where
  "shortest_route g s e np =
     (connects g s e (path_np np)
      \<and> length_np np = int (length (path_np np)) - 1
      \<and> (\<forall>k. (path s, path e) \<in> nbr_rel g ^^ k \<longrightarrow> length (path_np np) \<le> k + 1))"

lemma bfs_found:
  assumes inv: "bfs_inv g s e ((n, p) # rest) V"
    and m: "m \<in> set (neighbors g n)" "path m = path e"
  shows "shortest_route g s e
           \<lparr>start = s, end_np = e, path_np = p @ [m], length_np = int (length (p @ [m])) - 1,
            direction = d\<rparr>"
proof -
  from inv have hp: "is_route g p" "hd p = s" "last p = n" and eV: "path e \<notin> V"
    by (simp_all add: bfs_inv_def)
  from hp(1) have pne: "p \<noteq> []" by auto
  from m(1) hp(3) have "m \<in> set (neighbors g (last p))" by simp
  with hp(1) have "is_route g (p @ [m])" by (rule is_route_snoc)
  with hp(2) pne m(2) have c: "connects g s e (p @ [m])" by (simp add: connects_def)
  have "length (p @ [m]) \<le> k + 1" if "(path s, path e) \<in> nbr_rel g ^^ k" for k
  proof (rule ccontr)
    assume "\<not> length (p @ [m]) \<le> k + 1"
    then have "k < length p" by simp
    from bfs_inv_reach[OF inv that this] eV show False by simp
  qed
  with c show ?thesis by (simp add: shortest_route_def)
qed

lemma bfs_correct:
  "bfs_inv g s e q V \<Longrightarrow>
     (case bfs g s e q V of
        None \<Rightarrow> (path s, path e) \<notin> (nbr_rel g)\<^sup>*
      | Some np \<Rightarrow> shortest_route g s e np)"
proof (induction g s e q V rule: bfs.induct)
  case (1 g s e visited)
  from 1 have sV: "path s \<in> visited" and eV: "path e \<notin> visited"
    and closed: "\<And>a b. a \<in> visited \<Longrightarrow> (a, b) \<in> nbr_rel g \<Longrightarrow> b \<in> visited"
    by (auto simp: bfs_inv_def queue_nodes_def)
  have "b \<in> visited" if "(path s, b) \<in> (nbr_rel g)\<^sup>*" for b
    using that by (induction rule: rtrancl_induct) (auto intro: sV closed)
  with eV show ?case by (auto simp: bfs.simps)
next
  case (2 g s e node pth queue visited)
  note inv = "2.prems"
  show ?case
  proof (cases "scan_neighbors e pth (getParents g node) (queue, visited)")
    case (Return fp)
    from scan_neighbors_Return[OF Return] obtain m where
      m: "m \<in> set (getParents g node)" "path m = path e" "fp = pth @ [m]" by blast
    from m(1) have "m \<in> set (neighbors g node)" by (simp add: neighbors_def)
    from bfs_found[OF inv this m(2)] Return m(3) show ?thesis by (simp add: bfs.simps)
  next
    case (Next x2)
    obtain q1 V1 where x2: "x2 = (q1, V1)" by (cases x2)
    from scan_neighbors_Next[OF Next[unfolded x2]] obtain new1 where
      n1: "\<forall>m \<in> set (getParents g node). path m \<noteq> path e" "path ` set (getParents g node) \<subseteq> V1"
          "q1 = queue @ map (\<lambda>m. (m, pth @ [m])) new1" "V1 = visited \<union> path ` set new1"
          "set new1 \<subseteq> set (getParents g node)" "path ` set new1 \<inter> visited = {}" by blast
    show ?thesis
    proof (cases "scan_neighbors e pth (getChildren g node) (q1, V1)")
      case (Return fp)
      from scan_neighbors_Return[OF Return] obtain m where
        m: "m \<in> set (getChildren g node)" "path m = path e" "fp = pth @ [m]" by blast
      from m(1) have "m \<in> set (neighbors g node)" by (simp add: neighbors_def)
      from bfs_found[OF inv this m(2)] Return Next x2 m(3) show ?thesis by (simp add: bfs.simps)
    next
      case (Next x2a)
      obtain q2 V2 where x2a: "x2a = (q2, V2)" by (cases x2a)
      from scan_neighbors_Next[OF Next[unfolded x2a]] obtain new2 where
        n2: "\<forall>m \<in> set (getChildren g node). path m \<noteq> path e" "path ` set (getChildren g node) \<subseteq> V2"
            "q2 = q1 @ map (\<lambda>m. (m, pth @ [m])) new2" "V2 = V1 \<union> path ` set new2"
            "set new2 \<subseteq> set (getChildren g node)" "path ` set new2 \<inter> V1 = {}" by blast
      have q2: "q2 = queue @ map (\<lambda>m. (m, pth @ [m])) (new1 @ new2)" using n1(3) n2(3) by simp
      have V2: "V2 = visited \<union> path ` set (new1 @ new2)" using n1(4) n2(4) by auto
      have sub: "set (new1 @ new2) \<subseteq> set (neighbors g node)"
        using n1(5) n2(5) by (auto simp: neighbors_def)
      have fresh: "path ` set (new1 @ new2) \<inter> visited = {}" using n1(4,6) n2(6) by auto
      have cover: "path ` set (neighbors g node) \<subseteq> visited \<union> path ` set (new1 @ new2)"
        using n1(2,4) n2(2,4) by (auto simp: neighbors_def)
      have noend: "\<forall>m \<in> set (neighbors g node). path m \<noteq> path e"
        using n1(1) n2(1) by (auto simp: neighbors_def)
      from bfs_inv_step[OF inv sub fresh cover noend] have inv2: "bfs_inv g s e q2 V2"
        unfolding q2 V2 .
      have "bfs g s e ((node, pth) # queue) visited = bfs g s e q2 V2"
        using \<open>scan_neighbors e pth (getParents g node) (queue, visited) = Next x2\<close> x2 Next x2a
        by (simp add: bfs.simps)
      with "2.IH"[OF \<open>scan_neighbors e pth (getParents g node) (queue, visited) = Next x2\<close> x2[symmetric] Next x2a[symmetric] inv2]
      show ?thesis by simp
    qed
  qed
qed

lemma bfs_inv_init: "path s \<noteq> path e \<Longrightarrow> bfs_inv g s e [(s, [s])] {path s}"
  by (simp add: bfs_inv_def)

lemma connects_relpow:
  "connects g s e w \<Longrightarrow> (path s, path e) \<in> nbr_rel g ^^ (length w - 1)"
  using is_route_relpow[of g w] by (auto simp: connects_def)

text \<open>
  C9 (amended). For distinct documents, \<open>findShortestPath\<close> returns null exactly when no route
  connects the start to the end, a route going at each step from a document to one of
  the parents or children that the graph lists for it; a document without a node lists
  none, so it can end a route but not start or continue one. Otherwise the function
  returns a route that connects them, with its number of edges as length, which no
  connecting route undercuts. In the chain where A has parent B, B has parent C and C has
  parent D, the path from A to D is \<open>[A, B, C, D]\<close> and its length is 3.
\<close>

theorem findShortestPath_shortest:
  "(path s \<noteq> path e \<longrightarrow>
      (findShortestPath s e g = None \<longleftrightarrow> (\<forall>w. \<not> connects g s e w))
      \<and> (\<forall>np. findShortestPath s e g = Some np \<longrightarrow>
            connects g s e (path_np np) \<and> length_np np = int (length (path_np np)) - 1
            \<and> (\<forall>w. connects g s e w \<longrightarrow> length (path_np np) \<le> length w)))
   \<and> map_option path_np (findShortestPath docA docD graph_chain) = Some [docA, docB, docC, docD]
   \<and> map_option length_np (findShortestPath docA docD graph_chain) = Some 3"
proof (intro conjI impI allI)
  show "map_option path_np (findShortestPath docA docD graph_chain) = Some [docA, docB, docC, docD]"
    by (simp add: findShortestPath_def bfs.simps graph_chain_def doc_defs getParents_def getChildren_def)
  show "map_option length_np (findShortestPath docA docD graph_chain) = Some 3"
    by (simp add: findShortestPath_def bfs.simps graph_chain_def doc_defs getParents_def getChildren_def)
next
  assume ne: "path s \<noteq> path e"
  then have f: "findShortestPath s e g = bfs g s e [(s, [s])] {path s}"
    by (simp add: findShortestPath_def)
  note c = bfs_correct[OF bfs_inv_init[OF ne, of g]]
  have c_none: "(path s, path e) \<notin> (nbr_rel g)\<^sup>*" if "findShortestPath s e g = None"
    using c that f by simp
  have c_some: "shortest_route g s e np" if "findShortestPath s e g = Some np" for np
    using c that f by simp
  show "findShortestPath s e g = None \<longleftrightarrow> (\<forall>w. \<not> connects g s e w)"
  proof
    assume "findShortestPath s e g = None"
    from c_none[OF this] show "\<forall>w. \<not> connects g s e w"
      using connects_relpow relpow_imp_rtrancl by blast
  next
    assume no: "\<forall>w. \<not> connects g s e w"
    show "findShortestPath s e g = None"
    proof (cases "findShortestPath s e g")
      case None
      then show ?thesis .
    next
      case (Some np)
      from c_some[OF this] have "connects g s e (path_np np)" by (simp add: shortest_route_def)
      with no show ?thesis by blast
    qed
  qed
  fix np assume "findShortestPath s e g = Some np"
  from c_some[OF this] have sr: "shortest_route g s e np" .
  then show "connects g s e (path_np np)" and "length_np np = int (length (path_np np)) - 1"
    by (simp_all add: shortest_route_def)
  fix w assume w: "connects g s e w"
  then have "w \<noteq> []" by (auto simp: connects_def)
  from sr connects_relpow[OF w] have "length (path_np np) \<le> length w - 1 + 1"
    unfolding shortest_route_def by blast
  with \<open>w \<noteq> []\<close> show "length (path_np np) \<le> length w" by (cases w) simp_all
qed


theorem findShortestPath_shortest_witness:
  "path docA \<noteq> path docD
   \<and> findShortestPath docA docD graph_chain \<noteq> None
   \<and> connects graph_chain docA docD [docA, docB, docC, docD]
   \<and> findShortestPath docA docC graph_edge = None
   \<and> \<not> connects graph_edge docA docC [docA, docB, docC]"
proof -
  have h: "path docA \<noteq> path docD" by (simp add: doc_defs)
  have h': "path docA \<noteq> path docC" by (simp add: doc_defs)
  note t = findShortestPath_shortest[of docA docD graph_chain]
  from t obtain np where np: "findShortestPath docA docD graph_chain = Some np"
    "path_np np = [docA, docB, docC, docD]" by auto
  from t h np(1) have "connects graph_chain docA docD (path_np np)" by blast
  with np(2) have c: "connects graph_chain docA docD [docA, docB, docC, docD]" by simp
  have n: "findShortestPath docA docC graph_edge = None"
    by (simp add: findShortestPath_def bfs.simps graph_edge_def doc_defs getParents_def getChildren_def)
  with findShortestPath_shortest[of docA docC graph_edge] h'
  have "\<not> connects graph_edge docA docC [docA, docB, docC]" by blast
  with h np(1) c n show ?thesis by simp
qed

text \<open>C9 as stated fails where a parent has no node: in the vault \<open>app_ext\<close> the
  document A lists the parent X, which is no markdown file. An undirected path between A
  and X exists, and it is found from A, but not from X.\<close>

theorem findShortestPath_direction_counterexample:
  "map_option path_np (findShortestPath docA docX (build app_ext ''parent'')) = Some [docA, docX]
   \<and> findShortestPath docX docA (build app_ext ''parent'') = None"
  by (simp add: build_app_ext findShortestPath_def bfs.simps getParents_def getChildren_def
        doc_defs docX_def)

section \<open>All paths\<close>

text \<open>The routes that the search can still record from \<open>current\<close>, as extensions \<open>w\<close> of a
  path of \<open>len\<close> nodes that ends on \<open>current\<close>: they end on the target, repeat no document,
  avoid the visited ones, and the whole path has no more nodes than \<open>maxLength\<close>.\<close>

definition extends_to ::
  "graph \<Rightarrow> number \<Rightarrow> TFile \<Rightarrow> string set \<Rightarrow> nat \<Rightarrow> TFile \<Rightarrow> TFile list \<Rightarrow> bool" where
  "extends_to g maxLength target visited len current w =
     (is_route g (current # w) \<and> path (last (current # w)) = path target
      \<and> distinct (map path (current # w)) \<and> path ` set w \<inter> visited = {}
      \<and> \<not> num_greater (int (len + length w)) maxLength)"

lemma num_greater_mono: "num_greater (int a) m \<Longrightarrow> a \<le> b \<Longrightarrow> num_greater (int b) m"
  by (cases m) auto

lemma extends_to_Nil:
  "extends_to g m target visited len current [] \<longleftrightarrow>
     path current = path target \<and> \<not> num_greater (int len) m"
  by (auto simp: extends_to_def)

lemma extends_to_Cons:
  "extends_to g m target visited len current (n # w) \<longleftrightarrow>
     n \<in> set (neighbors g current) \<and> path n \<notin> insert (path current) visited
     \<and> extends_to g m target (insert (path current) visited) (len + 1) n w"
  by (auto simp: extends_to_def)

lemma all_paths_dfs_paths:
  "set (map path_np (all_paths_dfs g s e m current target pth visited))
   = (\<lambda>w. pth @ w) ` {w. extends_to g m target visited (length pth) current w}"
proof (induction g s e m current target pth visited rule: all_paths_dfs.induct)
  case (1 g s e maxLength current target pth visited)
  let ?E = "extends_to g maxLength target visited (length pth) current"
  show ?case
  proof (cases "num_greater (int (length pth)) maxLength")
    case True
    then have "\<not> ?E w" for w
      using num_greater_mono[of "length pth" maxLength "length pth + length w"]
      by (auto simp: extends_to_def)
    with True show ?thesis by (subst all_paths_dfs.simps) simp
  next
    case False
    show ?thesis
    proof (cases "path current = path target")
      case True
      have "?E w \<longleftrightarrow> w = []" for w
      proof (cases w)
        case Nil
        with True False show ?thesis by (simp add: extends_to_Nil)
      next
        case (Cons n w')
        have "\<not> ?E (n # w')"
        proof
          assume "?E (n # w')"
          then have "path (last (n # w')) = path target" "path current \<notin> path ` set (n # w')"
            by (auto simp: extends_to_def)
          with True show False by (metis image_eqI last_in_set list.distinct(1))
        qed
        with Cons show ?thesis by simp
      qed
      then have "{w. ?E w} = {[]}" by auto
      with True False show ?thesis by (subst all_paths_dfs.simps) simp
    next
      case ne: False
      let ?v1 = "insert (path current) visited"
      let ?rec = "\<lambda>n. all_paths_dfs g s e maxLength n target (pth @ [n]) ?v1"
      have unfold: "all_paths_dfs g s e maxLength current target pth visited
          = concat (map (\<lambda>n. if path n \<notin> ?v1 then ?rec n else []) (getParents g current))
            @ concat (map (\<lambda>n. if path n \<notin> ?v1 then ?rec n else []) (getChildren g current))"
        using False ne by (subst all_paths_dfs.simps) simp
      have ih: "set (map path_np (?rec n))
          = (\<lambda>w. (pth @ [n]) @ w) ` {w. extends_to g maxLength target ?v1 (length pth + 1) n w}"
        if "n \<in> set (neighbors g current)" "path n \<notin> ?v1" for n
      proof -
        from that(1) have "n \<in> set (getParents g current) \<or> n \<in> set (getChildren g current)"
          by (simp add: neighbors_def)
        then show ?thesis
        proof
          assume "n \<in> set (getParents g current)"
          from "1.IH"(1)[OF False ne this that(2)] show ?thesis by simp
        next
          assume "n \<in> set (getChildren g current)"
          from "1.IH"(2)[OF False ne this that(2)] show ?thesis by simp
        qed
      qed
      have lhs: "set (map path_np (all_paths_dfs g s e maxLength current target pth visited))
          = (\<Union>n \<in> {n \<in> set (neighbors g current). path n \<notin> ?v1}. set (map path_np (?rec n)))"
        unfolding unfold by (auto simp: neighbors_def split: if_splits)
      have rhs: "(\<lambda>w. pth @ w) ` {w. ?E w}
          = (\<Union>n \<in> {n \<in> set (neighbors g current). path n \<notin> ?v1}.
               (\<lambda>w. (pth @ [n]) @ w) ` {w. extends_to g maxLength target ?v1 (length pth + 1) n w})"
      proof (intro set_eqI iffI)
        fix x assume "x \<in> (\<lambda>w. pth @ w) ` {w. ?E w}"
        then obtain w where w: "x = pth @ w" "?E w" by auto
        from w(2) ne have "w \<noteq> []" by (auto simp: extends_to_Nil)
        then obtain n w' where nw: "w = n # w'" by (cases w) auto
        with w(2) have "n \<in> set (neighbors g current)" "path n \<notin> ?v1"
          "extends_to g maxLength target ?v1 (length pth + 1) n w'"
          by (simp_all add: extends_to_Cons)
        with w(1) nw show "x \<in> (\<Union>n \<in> {n \<in> set (neighbors g current). path n \<notin> ?v1}.
               (\<lambda>w. (pth @ [n]) @ w) ` {w. extends_to g maxLength target ?v1 (length pth + 1) n w})"
          by auto
      next
        fix x assume "x \<in> (\<Union>n \<in> {n \<in> set (neighbors g current). path n \<notin> ?v1}.
               (\<lambda>w. (pth @ [n]) @ w) ` {w. extends_to g maxLength target ?v1 (length pth + 1) n w})"
        then obtain n w' where n: "n \<in> set (neighbors g current)" "path n \<notin> ?v1"
          "extends_to g maxLength target ?v1 (length pth + 1) n w'" "x = (pth @ [n]) @ w'"
          by auto
        then have "?E (n # w')" by (simp add: extends_to_Cons)
        with n(4) show "x \<in> (\<lambda>w. pth @ w) ` {w. ?E w}" by force
      qed
      show ?thesis unfolding lhs rhs using ih by auto
    qed
  qed
qed


text \<open>What \<open>findAllPaths\<close> returns: the routes from the start to the end that repeat no
  document and have at most \<open>maxLength\<close> nodes, which is \<open>maxLength - 1\<close> edges.\<close>

lemma findAllPaths_paths:
  "set (map path_np (findAllPaths s e g maxLength))
   = {w. connects g s e w \<and> distinct (map path w)
         \<and> \<not> num_greater (int (length w)) (case maxLength of None \<Rightarrow> Finite 10 | Some m \<Rightarrow> m)}"
proof -
  let ?m = "case maxLength of None \<Rightarrow> Finite 10 | Some m \<Rightarrow> m"
  have "set (map path_np (findAllPaths s e g maxLength))
      = (\<lambda>w. [s] @ w) ` {w. extends_to g ?m e {} (length [s]) s w}"
    unfolding findAllPaths_def set_map set_sort
    using all_paths_dfs_paths[of g s e ?m s e "[s]" "{}"] by simp
  also have "\<dots> = {w. connects g s e w \<and> distinct (map path w) \<and> \<not> num_greater (int (length w)) ?m}"
  proof (intro set_eqI iffI)
    fix x assume "x \<in> (\<lambda>w. [s] @ w) ` {w. extends_to g ?m e {} (length [s]) s w}"
    then obtain w where "x = s # w" "extends_to g ?m e {} 1 s w" by auto
    then show "x \<in> {w. connects g s e w \<and> distinct (map path w) \<and> \<not> num_greater (int (length w)) ?m}"
      by (simp add: extends_to_def connects_def add.commute)
  next
    fix x assume "x \<in> {w. connects g s e w \<and> distinct (map path w) \<and> \<not> num_greater (int (length w)) ?m}"
    then have x: "connects g s e x" "distinct (map path x)" "\<not> num_greater (int (length x)) ?m"
      by auto
    from x(1) have "x \<noteq> []" by (auto simp: connects_def)
    with x(1) obtain w where w: "x = s # w" by (cases x) (auto simp: connects_def)
    with x have "extends_to g ?m e {} 1 s w"
      by (simp add: extends_to_def connects_def add.commute)
    with w show "x \<in> (\<lambda>w. [s] @ w) ` {w. extends_to g ?m e {} (length [s]) s w}" by auto
  qed
  finally show ?thesis .
qed

text \<open>
  C1 (as the code behaves at the bound). \<open>findAllPaths\<close> compares \<open>path.length\<close>, the number
  of nodes of the path so far, with \<open>maxLength\<close>: a path of exactly \<open>maxLength\<close> edges has
  \<open>maxLength + 1\<close> nodes and is cut before its last node is looked at. In the graph where A
  has parent B, the route from A to B repeats no document and has one edge, but it is not
  returned for \<open>maxLength = 1\<close>; it is returned for \<open>maxLength = 2\<close>.
\<close>

theorem findAllPaths_cuts_path_of_maxLength_edges:
  "connects graph_edge docA docB [docA, docB] \<and> distinct (map path [docA, docB])
   \<and> int (length [docA, docB]) - 1 \<le> 1
   \<and> findAllPaths docA docB graph_edge (Some (Finite 1)) = []
   \<and> map path_np (findAllPaths docA docB graph_edge (Some (Finite 2))) = [[docA, docB]]
   \<and> map length_np (findAllPaths docA docB graph_edge (Some (Finite 2))) = [1]"
proof (intro conjI)
  show "connects graph_edge docA docB [docA, docB]"
    by (simp add: connects_def neighbors_def graph_edge_def doc_defs getParents_def)
  show "distinct (map path [docA, docB])" by (simp add: doc_defs)
  show "int (length [docA, docB]) - 1 \<le> 1" by simp
  show "findAllPaths docA docB graph_edge (Some (Finite 1)) = []"
    by (simp add: findAllPaths_def all_paths_dfs.simps graph_edge_def doc_defs getParents_def
          getChildren_def)
  show "map path_np (findAllPaths docA docB graph_edge (Some (Finite 2))) = [[docA, docB]]"
    by (simp add: findAllPaths_def all_paths_dfs.simps graph_edge_def doc_defs getParents_def
          getChildren_def)
  show "map length_np (findAllPaths docA docB graph_edge (Some (Finite 2))) = [1]"
    by (simp add: findAllPaths_def all_paths_dfs.simps graph_edge_def doc_defs getParents_def
          getChildren_def)
qed

section \<open>Termination\<close>

text \<open>
  C4. \<open>detectCycle\<close>, \<open>getAncestors\<close>, \<open>findShortestPath\<close> and \<open>findAllPaths\<close> terminate on
  every graph, cyclic or not, from every document and for every bound, \<open>Infinity\<close> included.
  The domain predicate of a recursive function holds of the arguments from which every
  chain of recursive calls is finite; each traversal's loop is in its domain at the
  arguments the entry point passes. (\<open>hasCycles\<close> runs the detector's \<open>dfs\<close> once for each
  file of a finite list.)
\<close>

theorem traversals_terminate:
  "dfs_dfs_parents_dom (Inl (g, doc, Map.empty, []))
   \<and> ancestors_loop_dom (g, 0, maxDepth, [doc], {path doc}, [])
   \<and> bfs_dom (g, s, e, [(s, [s])], {path s})
   \<and> all_paths_dfs_dom (g, s, e, maxLength, s, e, [s], {})"
proof (intro conjI)
  show "dfs_dfs_parents_dom (Inl (g, doc, Map.empty, []))"
    using dfs_total by blast
  show "ancestors_loop_dom (g, 0, maxDepth, [doc], {path doc}, [])"
    using ancestors_loop_total by blast
  show "bfs_dom (g, s, e, [(s, [s])], {path s})"
    using bfs_total by blast
  show "all_paths_dfs_dom (g, s, e, maxLength, s, e, [s], {})"
    using all_paths_dfs_total by blast
qed

end
